theory Spec2Isabelle
  imports Main "HOL-Library.Multiset"
begin

section \<open>Cards (core/deck.py)\<close>

datatype Suit = SPADES | HEARTS | DIAMONDS | CLUBS

datatype Rank = TWO | THREE | FOUR | FIVE | SIX | SEVEN | EIGHT | NINE | TEN
  | JACK | QUEEN | KING | ACE

text \<open>The second component of each \<open>Rank\<close> member.\<close>

fun numeric_value :: "Rank \<Rightarrow> int" where
  "numeric_value TWO = 2"
| "numeric_value THREE = 3"
| "numeric_value FOUR = 4"
| "numeric_value FIVE = 5"
| "numeric_value SIX = 6"
| "numeric_value SEVEN = 7"
| "numeric_value EIGHT = 8"
| "numeric_value NINE = 9"
| "numeric_value TEN = 10"
| "numeric_value JACK = 11"
| "numeric_value QUEEN = 12"
| "numeric_value KING = 13"
| "numeric_value ACE = 14"

datatype Card = Card (rank: Rank) (suit: Suit)

text \<open>
  Exceptions of the Python code, as values. \<open>InsufficientCards\<close> is the \<open>ValueError\<close>
  raised by \<open>Deck.deal\<close>, \<open>InsufficientHandSize\<close> the \<open>ValueError\<close> raised by
  \<open>HandEvaluator.evaluate_hand\<close>; \<open>IndexError\<close> and \<open>ZeroDivisionError\<close> are the
  built-in ones. \<open>NoBestHand\<close> stands for \<open>evaluate_hand\<close> returning Python's \<open>None\<close>
  (its loop body never ran).
\<close>

datatype error = InsufficientCards | InsufficientHandSize | IndexError
  | ZeroDivisionError | NoBestHand

section \<open>Hand strength (core/hand\_evaluator.py)\<close>

datatype HandRank = HIGH_CARD | ONE_PAIR | TWO_PAIR | THREE_OF_A_KIND | STRAIGHT
  | FLUSH | FULL_HOUSE | FOUR_OF_A_KIND | STRAIGHT_FLUSH | ROYAL_FLUSH

text \<open>\<open>HandRank\<close> is an \<open>IntEnum\<close>: its members compare as these integers.\<close>

fun hand_rank_value :: "HandRank \<Rightarrow> int" where
  "hand_rank_value HIGH_CARD = 1"
| "hand_rank_value ONE_PAIR = 2"
| "hand_rank_value TWO_PAIR = 3"
| "hand_rank_value THREE_OF_A_KIND = 4"
| "hand_rank_value STRAIGHT = 5"
| "hand_rank_value FLUSH = 6"
| "hand_rank_value FULL_HOUSE = 7"
| "hand_rank_value FOUR_OF_A_KIND = 8"
| "hand_rank_value STRAIGHT_FLUSH = 9"
| "hand_rank_value ROYAL_FLUSH = 10"

datatype HandStrength = HandStrength (hs_rank: HandRank) (primary_value: int)
  (secondary_value: int) (kickers: "int list")

text \<open>
  The loop of \<open>__lt__\<close> over \<open>zip(self.kickers, other.kickers)\<close>: the first pair that
  differs decides, and a zip that runs out gives \<open>False\<close>.
\<close>

fun kickers_lt :: "(int \<times> int) list \<Rightarrow> bool" where
  "kickers_lt [] = False"
| "kickers_lt ((my_kicker, other_kicker) # rest) =
     (if my_kicker \<noteq> other_kicker then my_kicker < other_kicker else kickers_lt rest)"

definition hs_lt :: "HandStrength \<Rightarrow> HandStrength \<Rightarrow> bool" where
  "hs_lt self other =
     (if hand_rank_value (hs_rank self) \<noteq> hand_rank_value (hs_rank other)
      then hand_rank_value (hs_rank self) < hand_rank_value (hs_rank other)
      else if primary_value self \<noteq> primary_value other
      then primary_value self < primary_value other
      else if secondary_value self \<noteq> secondary_value other
      then secondary_value self < secondary_value other
      else kickers_lt (zip (kickers self) (kickers other)))"

definition hs_eq :: "HandStrength \<Rightarrow> HandStrength \<Rightarrow> bool" where
  "hs_eq self other =
     (hand_rank_value (hs_rank self) = hand_rank_value (hs_rank other) \<and>
      primary_value self = primary_value other \<and>
      secondary_value self = secondary_value other \<and>
      kickers self = kickers other)"

definition hs_gt :: "HandStrength \<Rightarrow> HandStrength \<Rightarrow> bool" where
  "hs_gt self other = (\<not> (hs_lt self other \<or> hs_eq self other))"

section \<open>Hand evaluation\<close>

definition is_flush :: "Card list \<Rightarrow> bool" where
  "is_flush cards =
     (if length cards < 5 then False
      else length (remdups (map suit cards)) = 1)"

definition is_straight :: "int list \<Rightarrow> bool" where
  "is_straight values =
     (if length values < 5 then False
      else if values = [14, 5, 4, 3, 2] then True
      else list_all (\<lambda>i. values ! i - 1 = values ! (i + 1)) [0 ..< length values - 1])"

text \<open>
  \<open>max(values)\<close> and \<open>min(values)\<close>. The evaluator applies them only after
  \<open>is_straight\<close> has held, which needs five values, so the empty list (where Python
  raises) is never their argument.
\<close>

definition max_value :: "int list \<Rightarrow> int" where
  "max_value values = fold max (tl values) (hd values)"

definition min_value :: "int list \<Rightarrow> int" where
  "min_value values = fold min (tl values) (hd values)"

definition get_straight_high_card :: "int list \<Rightarrow> int" where
  "get_straight_high_card values =
     (if values = [14, 5, 4, 3, 2] then 5 else max_value values)"

text \<open>
  \<open>collections.Counter\<close>: a dictionary in insertion order, here the list of its items.
\<close>

fun counter_add :: "int \<Rightarrow> (int \<times> nat) list \<Rightarrow> (int \<times> nat) list" where
  "counter_add x [] = [(x, 1)]"
| "counter_add x ((v, c) # rest) =
     (if v = x then (v, c + 1) # rest else (v, c) # counter_add x rest)"

definition Counter :: "int list \<Rightarrow> (int \<times> nat) list" where
  "Counter values = foldl (\<lambda>m x. counter_add x m) [] values"

text \<open>\<open>[v for v, c in value_counts.items() if c == n]\<close>\<close>

definition values_with_count :: "(int \<times> nat) list \<Rightarrow> nat \<Rightarrow> int list" where
  "values_with_count value_counts n = map fst (filter (\<lambda>(v, c). c = n) value_counts)"

text \<open>\<open>n in value_counts.values()\<close>\<close>

definition has_count :: "(int \<times> nat) list \<Rightarrow> nat \<Rightarrow> bool" where
  "has_count value_counts n = (n \<in> set (map snd value_counts))"

text \<open>\<open>xs[0]\<close>, which raises \<open>IndexError\<close> on the empty list.\<close>

definition first :: "int list \<Rightarrow> error + int" where
  "first xs = (case xs of [] \<Rightarrow> Inl IndexError | x # _ \<Rightarrow> Inr x)"

text \<open>\<open>sorted(xs, reverse=True)\<close> on integers.\<close>

definition sorted_desc :: "int list \<Rightarrow> int list" where
  "sorted_desc xs = rev (sort xs)"

definition evaluate_five_cards :: "Card list \<Rightarrow> error + HandStrength" where
  "evaluate_five_cards cards =
     (let values = sorted_desc (map (\<lambda>card. numeric_value (rank card)) cards);
          value_counts = Counter values;
          flush = is_flush cards;
          straight = is_straight values;
          pairs = values_with_count value_counts 2
      in
      if flush \<and> straight \<and> max_value values = 14 \<and> min_value values = 10
      then Inr (HandStrength ROYAL_FLUSH 14 0 [])
      else if flush \<and> straight
      then Inr (HandStrength STRAIGHT_FLUSH (get_straight_high_card values) 0 [])
      else if has_count value_counts 4
      then (case first (values_with_count value_counts 4) of
              Inl e \<Rightarrow> Inl e
            | Inr quad_value \<Rightarrow>
                (case first (values_with_count value_counts 1) of
                   Inl e \<Rightarrow> Inl e
                 | Inr kicker \<Rightarrow> Inr (HandStrength FOUR_OF_A_KIND quad_value 0 [kicker])))
      else if has_count value_counts 3 \<and> has_count value_counts 2
      then (case first (values_with_count value_counts 3) of
              Inl e \<Rightarrow> Inl e
            | Inr trips_value \<Rightarrow>
                (case first (values_with_count value_counts 2) of
                   Inl e \<Rightarrow> Inl e
                 | Inr pair_value \<Rightarrow> Inr (HandStrength FULL_HOUSE trips_value pair_value [])))
      else if flush
      then Inr (HandStrength FLUSH 0 0 values)
      else if straight
      then Inr (HandStrength STRAIGHT (get_straight_high_card values) 0 [])
      else if has_count value_counts 3
      then (case first (values_with_count value_counts 3) of
              Inl e \<Rightarrow> Inl e
            | Inr trips_value \<Rightarrow>
                Inr (HandStrength THREE_OF_A_KIND trips_value 0
                       (sorted_desc (values_with_count value_counts 1))))
      else if length pairs = 2
      then (case first (values_with_count value_counts 1) of
              Inl e \<Rightarrow> Inl e
            | Inr kicker \<Rightarrow>
                Inr (HandStrength TWO_PAIR (sorted_desc pairs ! 0) (sorted_desc pairs ! 1)
                       [kicker]))
      else if length pairs = 1
      then Inr (HandStrength ONE_PAIR (pairs ! 0) 0
                  (sorted_desc (values_with_count value_counts 1)))
      else Inr (HandStrength HIGH_CARD 0 0 values))"

text \<open>
  \<open>itertools.combinations(cards, r)\<close>: the subsequences of length \<open>r\<close>, in
  lexicographic order of their positions.
\<close>

fun combinations :: "'a list \<Rightarrow> nat \<Rightarrow> 'a list list" where
  "combinations xs 0 = [[]]"
| "combinations [] (Suc r) = []"
| "combinations (x # xs) (Suc r) =
     map ((#) x) (combinations xs r) @ combinations xs (Suc r)"

text \<open>The loop of \<open>evaluate_hand\<close>, with \<open>best_hand\<close> as accumulator.\<close>

fun best_of :: "Card list list \<Rightarrow> HandStrength option \<Rightarrow> error + HandStrength option" where
  "best_of [] best_hand = Inr best_hand"
| "best_of (five_cards # rest) best_hand =
     (case evaluate_five_cards five_cards of
        Inl e \<Rightarrow> Inl e
      | Inr hand_strength \<Rightarrow>
          best_of rest
            (case best_hand of
               None \<Rightarrow> Some hand_strength
             | Some b \<Rightarrow> if hs_gt hand_strength b then Some hand_strength else Some b))"

definition evaluate_hand :: "Card list \<Rightarrow> error + HandStrength" where
  "evaluate_hand cards =
     (if length cards < 5 then Inl InsufficientHandSize
      else case best_of (combinations cards 5) None of
             Inl e \<Rightarrow> Inl e
           | Inr None \<Rightarrow> Inl NoBestHand
           | Inr (Some best_hand) \<Rightarrow> Inr best_hand)"

text \<open>
  The number of kickers the evaluator gives each category, and the strengths that have
  that number.
\<close>

fun kicker_count :: "HandRank \<Rightarrow> nat" where
  "kicker_count HIGH_CARD = 5"
| "kicker_count ONE_PAIR = 3"
| "kicker_count TWO_PAIR = 1"
| "kicker_count THREE_OF_A_KIND = 2"
| "kicker_count STRAIGHT = 0"
| "kicker_count FLUSH = 5"
| "kicker_count FULL_HOUSE = 0"
| "kicker_count FOUR_OF_A_KIND = 1"
| "kicker_count STRAIGHT_FLUSH = 0"
| "kicker_count ROYAL_FLUSH = 0"

definition well_formed :: "HandStrength \<Rightarrow> bool" where
  "well_formed h = (length (kickers h) = kicker_count (hs_rank h))"

section \<open>Deck (core/deck.py)\<close>

record Deck =
  cards :: "Card list"

text \<open>
  \<open>[Card(rank, suit) for rank in Rank for suit in Suit]\<close>, the deck before shuffling.
\<close>

definition full_deck :: "Card list" where
  "full_deck =
     concat (map (\<lambda>r. map (\<lambda>s. Card r s) [SPADES, HEARTS, DIAMONDS, CLUBS])
       [TWO, THREE, FOUR, FIVE, SIX, SEVEN, EIGHT, NINE, TEN, JACK, QUEEN, KING, ACE])"

text \<open>
  A call that raises leaves behind whatever it had mutated before. A fallible operation
  on a state therefore returns either the exception with the state at that moment
  (\<open>Inl\<close>) or its result with the new state (\<open>Inr\<close>).

  The loop of \<open>Deck.deal\<close>: \<open>dealt_cards.append(self.cards.pop())\<close>, \<open>num_cards\<close>
  times; \<open>pop\<close> takes the last element.
\<close>

fun deal_loop :: "nat \<Rightarrow> Card list \<Rightarrow> Card list \<Rightarrow> (error \<times> Card list) + (Card list \<times> Card list)" where
  "deal_loop 0 dealt_cards cs = Inr (dealt_cards, cs)"
| "deal_loop (Suc n) dealt_cards cs =
     (if cs = [] then Inl (IndexError, cs)
      else deal_loop n (dealt_cards @ [last cs]) (butlast cs))"

definition deal :: "Deck \<Rightarrow> int \<Rightarrow> (error \<times> Deck) + (Card list \<times> Deck)" where
  "deal self num_cards =
     (if num_cards > int (length (cards self)) then Inl (InsufficientCards, self)
      else case deal_loop (nat num_cards) [] (cards self) of
             Inl (e, cs) \<Rightarrow> Inl (e, self\<lparr>cards := cs\<rparr>)
           | Inr (dealt_cards, cs) \<Rightarrow> Inr (dealt_cards, self\<lparr>cards := cs\<rparr>))"

definition deal_one :: "Deck \<Rightarrow> (error \<times> Deck) + (Card \<times> Deck)" where
  "deal_one self =
     (case deal self 1 of
        Inl x \<Rightarrow> Inl x
      | Inr (dealt_cards, d) \<Rightarrow>
          (case dealt_cards of [] \<Rightarrow> Inl (IndexError, d) | c # _ \<Rightarrow> Inr (c, d)))"

section \<open>Players (core/player.py)\<close>

datatype Action = FOLD | CALL | RAISE | CHECK | ALL_IN

record ActionHistory =
  actions :: "(Action \<times> int) list"
  bets :: "int list"
  round_actions :: "(string \<times> (Action \<times> int) list) list"

definition new_history :: ActionHistory where
  "new_history =
     \<lparr>actions = [], bets = [],
      round_actions = [(''preflop'', []), (''flop'', []), (''turn'', []), (''river'', [])]\<rparr>"

definition add_action :: "ActionHistory \<Rightarrow> Action \<Rightarrow> int \<Rightarrow> string \<Rightarrow> ActionHistory" where
  "add_action self action amount round_name =
     self\<lparr>actions := actions self @ [(action, amount)],
          bets := bets self @ [amount],
          round_actions :=
            map (\<lambda>(k, v). if k = round_name then (k, v @ [(action, amount)]) else (k, v))
              (round_actions self)\<rparr>"

definition clear_history :: "ActionHistory \<Rightarrow> ActionHistory" where
  "clear_history self =
     self\<lparr>actions := [], bets := [],
          round_actions := map (\<lambda>(k, v). (k, [])) (round_actions self)\<rparr>"

text \<open>
  The field \<open>current_bet\<close> of a player is \<open>p_current_bet\<close> here; \<open>current_bet\<close> is the
  field of the game state.
\<close>

record Player =
  name :: string
  stack :: int
  hole_cards :: "Card list"
  p_current_bet :: int
  folded :: bool
  all_in :: bool
  action_history :: ActionHistory

definition new_player :: "string \<Rightarrow> int \<Rightarrow> Player" where
  "new_player nm st =
     \<lparr>name = nm, stack = st, hole_cards = [], p_current_bet = 0, folded = False,
      all_in = False, action_history = new_history\<rparr>"

definition receive_cards :: "Player \<Rightarrow> Card list \<Rightarrow> Player" where
  "receive_cards self cs = self\<lparr>hole_cards := cs\<rparr>"

text \<open>\<open>Player.bet\<close> returns the amount actually bet, and here the player after it.\<close>

definition bet :: "Player \<Rightarrow> int \<Rightarrow> int \<times> Player" where
  "bet self amount =
     (if amount > stack self
      then (stack self,
            self\<lparr>stack := 0, all_in := True,
                 p_current_bet := p_current_bet self + stack self\<rparr>)
      else (amount,
            self\<lparr>stack := stack self - amount,
                 p_current_bet := p_current_bet self + amount\<rparr>))"

definition fold_hand :: "Player \<Rightarrow> Player" where
  "fold_hand self = self\<lparr>folded := True\<rparr>"

definition reset_for_new_hand :: "Player \<Rightarrow> Player" where
  "reset_for_new_hand self =
     self\<lparr>hole_cards := [], p_current_bet := 0, folded := False, all_in := False,
          action_history := clear_history (action_history self)\<rparr>"

section \<open>Game state (core/game\_state.py)\<close>

datatype BettingRound = PREFLOP | FLOP | TURN | RIVER

fun round_value :: "BettingRound \<Rightarrow> string" where
  "round_value PREFLOP = ''preflop''"
| "round_value FLOP = ''flop''"
| "round_value TURN = ''turn''"
| "round_value RIVER = ''river''"

record GameState =
  players :: "Player list"
  deck :: Deck
  community_cards :: "Card list"
  pot :: int
  side_pots :: "int list"
  current_bet :: int
  small_blind :: int
  big_blind :: int
  dealer_position :: int
  current_round :: BettingRound
  action_position :: int
  hand_number :: int

text \<open>
  \<open>GameState.__init__\<close>. The order in which \<open>random.shuffle\<close> leaves a deck is not a
  function of the state: it is the argument \<open>shuffled\<close>, here and in \<open>start_new_hand\<close>.
\<close>

definition new_game :: "Player list \<Rightarrow> int \<Rightarrow> int \<Rightarrow> Card list \<Rightarrow> GameState" where
  "new_game ps sb bb shuffled =
     \<lparr>players = ps, deck = \<lparr>cards = shuffled\<rparr>, community_cards = [], pot = 0,
      side_pots = [], current_bet = 0, small_blind = sb, big_blind = bb,
      dealer_position = 0, current_round = PREFLOP, action_position = 0,
      hand_number = 0\<rparr>"

text \<open>
  The loop of \<open>deal_hole_cards\<close> over the players; on an exception the players dealt to
  so far keep their cards.
\<close>

fun deal_hole_loop :: "Player list \<Rightarrow> Deck \<Rightarrow> (error \<times> Player list \<times> Deck) + (Player list \<times> Deck)" where
  "deal_hole_loop [] d = Inr ([], d)"
| "deal_hole_loop (player # rest) d =
     (if \<not> folded player
      then (case deal d 2 of
              Inl (e, d') \<Rightarrow> Inl (e, player # rest, d')
            | Inr (cs, d') \<Rightarrow>
                (case deal_hole_loop rest d' of
                   Inl (e, rest', d'') \<Rightarrow> Inl (e, receive_cards player cs # rest', d'')
                 | Inr (rest', d'') \<Rightarrow> Inr (receive_cards player cs # rest', d'')))
      else (case deal_hole_loop rest d of
              Inl (e, rest', d'') \<Rightarrow> Inl (e, player # rest', d'')
            | Inr (rest', d'') \<Rightarrow> Inr (player # rest', d'')))"

definition deal_hole_cards :: "GameState \<Rightarrow> (error \<times> GameState) + GameState" where
  "deal_hole_cards self =
     (case deal_hole_loop (players self) (deck self) of
        Inl (e, ps, d) \<Rightarrow> Inl (e, self\<lparr>players := ps, deck := d\<rparr>)
      | Inr (ps, d) \<Rightarrow> Inr (self\<lparr>players := ps, deck := d\<rparr>))"

text \<open>
  Seats are Python integers; every seat computed by the code is a remainder modulo the
  number of players, hence a valid index.
\<close>

definition post_blinds :: "GameState \<Rightarrow> (error \<times> GameState) + GameState" where
  "post_blinds self =
     (if length (players self) = 0 then Inl (ZeroDivisionError, self)
      else
        let n = int (length (players self));
            small_blind_pos = (dealer_position self + 1) mod n;
            big_blind_pos = (dealer_position self + 2) mod n;
            sb_player = players self ! nat small_blind_pos;
            (sb_amount, sb_player') = bet sb_player (min (small_blind self) (stack sb_player));
            self1 = self\<lparr>players := (players self)[nat small_blind_pos := sb_player'],
                        pot := pot self + sb_amount\<rparr>;
            bb_player = players self1 ! nat big_blind_pos;
            (bb_amount, bb_player') = bet bb_player (min (big_blind self1) (stack bb_player))
        in Inr (self1\<lparr>players := (players self1)[nat big_blind_pos := bb_player'],
                      pot := pot self1 + bb_amount,
                      current_bet := bb_amount,
                      action_position := (big_blind_pos + 1) mod n\<rparr>))"

definition start_new_hand :: "GameState \<Rightarrow> Card list \<Rightarrow> (error \<times> GameState) + GameState" where
  "start_new_hand self shuffled =
     (case deal_hole_cards
             (self\<lparr>hand_number := hand_number self + 1,
                   deck := (deck self)\<lparr>cards := shuffled\<rparr>,
                   community_cards := [],
                   pot := 0,
                   side_pots := [],
                   current_bet := 0,
                   current_round := PREFLOP,
                   players := map reset_for_new_hand (players self)\<rparr>) of
        Inl x \<Rightarrow> Inl x
      | Inr self1 \<Rightarrow> post_blinds self1)"

text \<open>
  The \<open>while\<close> loop of \<open>reset_betting_round\<close>, which has no bound of its own: \<open>None\<close> is
  the loop that never ends.
\<close>

partial_function (option) next_active_seat :: "Player list \<Rightarrow> int \<Rightarrow> int option" where
  "next_active_seat ps pos =
     (if folded (ps ! nat pos) \<or> all_in (ps ! nat pos)
      then next_active_seat ps ((pos + 1) mod int (length ps))
      else Some pos)"

definition reset_betting_round :: "GameState \<Rightarrow> ((error \<times> GameState) + GameState) option" where
  "reset_betting_round self =
     (let self1 = self\<lparr>current_bet := 0,
                      players := map (\<lambda>player. player\<lparr>p_current_bet := 0\<rparr>) (players self)\<rparr>
      in if length (players self1) = 0 then Some (Inl (ZeroDivisionError, self1))
         else case next_active_seat (players self1)
                     ((dealer_position self1 + 1) mod int (length (players self1))) of
                None \<Rightarrow> None
              | Some pos \<Rightarrow> Some (Inr (self1\<lparr>action_position := pos\<rparr>)))"

text \<open>
  \<open>deal_flop\<close>, \<open>deal_turn\<close> and \<open>deal_river\<close> burn a card, deal \<open>n\<close> cards to the board
  and reset the betting round; they differ in \<open>n\<close> and in the round they set.
\<close>

definition deal_street :: "int \<Rightarrow> BettingRound \<Rightarrow> GameState \<Rightarrow> ((error \<times> GameState) + GameState) option" where
  "deal_street n r self =
     (case deal_one (deck self) of
        Inl (e, d) \<Rightarrow> Some (Inl (e, self\<lparr>deck := d\<rparr>))
      | Inr (burn, d) \<Rightarrow>
          (case deal d n of
             Inl (e, d') \<Rightarrow> Some (Inl (e, self\<lparr>deck := d'\<rparr>))
           | Inr (cs, d') \<Rightarrow>
               reset_betting_round
                 (self\<lparr>deck := d',
                       community_cards := community_cards self @ cs,
                       current_round := r\<rparr>)))"

definition deal_flop :: "GameState \<Rightarrow> ((error \<times> GameState) + GameState) option" where
  "deal_flop self = deal_street 3 FLOP self"

definition deal_turn :: "GameState \<Rightarrow> ((error \<times> GameState) + GameState) option" where
  "deal_turn self = deal_street 1 TURN self"

definition deal_river :: "GameState \<Rightarrow> ((error \<times> GameState) + GameState) option" where
  "deal_river self = deal_street 1 RIVER self"

text \<open>
  \<open>execute_action(player, action, amount)\<close>. The player object is one of
  \<open>self.players\<close>; it is given by its seat \<open>i\<close>. The result is the returned flag and
  the state after the call.
\<close>

definition execute_action :: "GameState \<Rightarrow> nat \<Rightarrow> Action \<Rightarrow> int \<Rightarrow> bool \<times> GameState" where
  "execute_action self i action amount =
     (let player = players self ! i;
          record_action = (\<lambda>s p. (True, s\<lparr>players := (players s)
              [i := p\<lparr>action_history :=
                        add_action (action_history p) action amount
                          (round_value (current_round s))\<rparr>]\<rparr>))
      in
      if folded player \<or> all_in player then (False, self)
      else if action = FOLD then record_action self (fold_hand player)
      else if action = CHECK then
        (if current_bet self > p_current_bet player then (False, self)
         else record_action self player)
      else if action = CALL then
        (let amount_to_call = current_bet self - p_current_bet player
         in if amount_to_call \<le> 0 then (False, self)
            else let (actual_amount, player') = bet player amount_to_call
                 in record_action (self\<lparr>pot := pot self + actual_amount\<rparr>) player')
      else if action = RAISE then
        (let total_bet = current_bet self + amount;
             amount_to_bet = total_bet - p_current_bet player
         in if amount_to_bet > stack player
            then let (actual_amount, player') = bet player (stack player)
                 in record_action
                      (self\<lparr>pot := pot self + actual_amount,
                            current_bet := p_current_bet player'\<rparr>) player'
            else let (actual_amount, player') = bet player amount_to_bet
                 in record_action
                      (self\<lparr>pot := pot self + actual_amount,
                            current_bet := total_bet\<rparr>) player')
      else record_action self player)"


text \<open>The seats of \<open>get_active_players\<close>, in seating order.\<close>

definition get_active_players :: "GameState \<Rightarrow> nat list" where
  "get_active_players self =
     filter (\<lambda>i. \<not> folded (players self ! i)) [0 ..< length (players self)]"

text \<open>
  \<open>list.sort\<close> compares with \<open>__lt__\<close> only and is stable: it is the stable insertion
  sort below. With \<open>reverse=True\<close> the list is reversed, sorted, and reversed again.
\<close>

fun insort_lt :: "('k \<Rightarrow> 'k \<Rightarrow> bool) \<Rightarrow> ('a \<Rightarrow> 'k) \<Rightarrow> 'a \<Rightarrow> 'a list \<Rightarrow> 'a list" where
  "insort_lt lt key x [] = [x]"
| "insort_lt lt key x (y # ys) =
     (if lt (key y) (key x) then y # insort_lt lt key x ys else x # y # ys)"

definition sort_lt :: "('k \<Rightarrow> 'k \<Rightarrow> bool) \<Rightarrow> ('a \<Rightarrow> 'k) \<Rightarrow> 'a list \<Rightarrow> 'a list" where
  "sort_lt lt key xs = foldr (insort_lt lt key) xs []"

definition sort_reverse :: "('k \<Rightarrow> 'k \<Rightarrow> bool) \<Rightarrow> ('a \<Rightarrow> 'k) \<Rightarrow> 'a list \<Rightarrow> 'a list" where
  "sort_reverse lt key xs = rev (sort_lt lt key (rev xs))"

text \<open>The showdown loop: the strength of every active player's seven cards.\<close>

fun player_hands_of :: "GameState \<Rightarrow> nat list \<Rightarrow> error + (nat \<times> HandStrength) list" where
  "player_hands_of self [] = Inr []"
| "player_hands_of self (seat # rest) =
     (case evaluate_hand (hole_cards (players self ! seat) @ community_cards self) of
        Inl e \<Rightarrow> Inl e
      | Inr hand_strength \<Rightarrow>
          (case player_hands_of self rest of
             Inl e \<Rightarrow> Inl e
           | Inr hands \<Rightarrow> Inr ((seat, hand_strength) # hands)))"

text \<open>
  \<open>determine_winners\<close>, each winner given by seat. \<open>player_hands[0]\<close> raises on an empty
  list, and the division by \<open>len(winners)\<close> on zero.
\<close>

definition determine_winners :: "GameState \<Rightarrow> error + (nat \<times> int) list" where
  "determine_winners self =
     (let active_players = get_active_players self
      in if length active_players = 1 then Inr [(active_players ! 0, pot self)]
         else case player_hands_of self active_players of
                Inl e \<Rightarrow> Inl e
              | Inr hands \<Rightarrow>
                  (case sort_reverse hs_lt snd hands of
                     [] \<Rightarrow> Inl IndexError
                   | (p, best_hand) # others \<Rightarrow>
                       let winners = map fst (takeWhile (\<lambda>(q, hand_strength).
                                       hs_eq hand_strength best_hand)
                                         ((p, best_hand) # others))
                       in if length winners = 0 then Inl ZeroDivisionError
                          else
                            let winnings_per_player = pot self div int (length winners);
                                remainder = pot self mod int (length winners)
                            in Inr (map (\<lambda>(i, winner).
                                      (winner,
                                       if int i < remainder then winnings_per_player + 1
                                       else winnings_per_player))
                                    (enumerate 0 winners))))"


section \<open>Quantities of a hand\<close>








section \<open>Example tables\<close>

text \<open>
  Three players with 1000 chips each, but seat 0 with \<open>st\<close>; blinds 10 and 20. With the
  dealer at seat 0, seat 1 posts the small blind, seat 2 the big blind, and seat 0 acts
  first.
\<close>

definition three_handed :: "int \<Rightarrow> GameState" where
  "three_handed st =
     new_game [new_player ''A'' st, new_player ''B'' 1000, new_player ''C'' 1000] 10 20
       full_deck"

text \<open>A table whose deck is down to three cards.\<close>

definition short_deck_table :: GameState where
  "short_deck_table =
     new_game [new_player ''A'' 1000, new_player ''B'' 1000] 10 20
       [Card TWO SPADES, Card THREE SPADES, Card FOUR SPADES]"

text \<open>
  A showdown with a pot of 100 on the board 2\<clubsuit> 7\<diamondsuit> 9\<heartsuit> J\<spadesuit> K\<clubsuit>. Seats 0, 3 and 4 hold
  an ace and a king each (a pair of kings with the same kickers), seat 2 holds a pair of
  queens, and seat 1, with a pair of twos for three of a kind, has folded.
\<close>

definition showdown_table :: GameState where
  "showdown_table =
     (new_game
        [(new_player ''A'' 960)\<lparr>hole_cards := [Card ACE SPADES, Card KING DIAMONDS]\<rparr>,
         (new_player ''B'' 990)\<lparr>hole_cards := [Card TWO SPADES, Card TWO HEARTS],
                                 folded := True\<rparr>,
         (new_player ''C'' 980)\<lparr>hole_cards := [Card QUEEN SPADES, Card QUEEN HEARTS]\<rparr>,
         (new_player ''D'' 985)\<lparr>hole_cards := [Card ACE HEARTS, Card KING HEARTS]\<rparr>,
         (new_player ''E'' 985)\<lparr>hole_cards := [Card ACE DIAMONDS, Card KING SPADES]\<rparr>]
        10 20 [])
     \<lparr>community_cards := [Card TWO CLUBS, Card SEVEN DIAMONDS, Card NINE HEARTS,
                           Card JACK SPADES, Card KING CLUBS],
      pot := 100, current_round := RIVER\<rparr>"

text \<open>A table with nobody seated.\<close>

definition empty_table :: GameState where
  "empty_table = new_game [] 10 20 full_deck"

text \<open>A table of two players who have both folded or gone all-in.\<close>

definition idle_table :: GameState where
  "idle_table =
     new_game [(new_player ''A'' 1000)\<lparr>folded := True\<rparr>,
               (new_player ''B'' 0)\<lparr>all_in := True\<rparr>] 10 20 full_deck"

section \<open>Properties of the hand evaluator\<close>

text \<open>
  C3: evaluating the five spades A K Q J T gives a Royal Flush; evaluating the wheel
  5 4 3 2 A of spades gives a Straight Flush whose primary value is 5, not 14, and that
  strength is strictly below the one of 6 5 4 3 2 of spades, a Straight Flush with
  primary value 6.
\<close>

theorem wheel_straight_flush_below_six_high:
  "evaluate_hand [Card ACE SPADES, Card KING SPADES, Card QUEEN SPADES, Card JACK SPADES,
       Card TEN SPADES] = Inr (HandStrength ROYAL_FLUSH 14 0 []) \<and>
   evaluate_hand [Card FIVE SPADES, Card FOUR SPADES, Card THREE SPADES, Card TWO SPADES,
       Card ACE SPADES] = Inr (HandStrength STRAIGHT_FLUSH 5 0 []) \<and>
   evaluate_hand [Card SIX SPADES, Card FIVE SPADES, Card FOUR SPADES, Card THREE SPADES,
       Card TWO SPADES] = Inr (HandStrength STRAIGHT_FLUSH 6 0 []) \<and>
   hs_lt (HandStrength STRAIGHT_FLUSH 5 0 []) (HandStrength STRAIGHT_FLUSH 6 0 []) \<and>
   \<not> hs_lt (HandStrength STRAIGHT_FLUSH 6 0 []) (HandStrength STRAIGHT_FLUSH 5 0 []) \<and>
   \<not> hs_eq (HandStrength STRAIGHT_FLUSH 5 0 []) (HandStrength STRAIGHT_FLUSH 6 0 [])"
  by code_simp

subsection \<open>The order on hand strengths\<close>

lemma length_sorted_desc [simp]: "length (sorted_desc xs) = length xs"
  by (simp add: sorted_desc_def)

lemma list_five:
  "length ys = 5 \<Longrightarrow> \<exists>e d c b a. ys = [e, d, c, b, a]"
  by (auto simp: length_Suc_conv eval_nat_numeral)

lemma five_sorted:
  assumes "length xs = 5"
  shows "\<exists>a b c d e. sorted_desc xs = [a, b, c, d, e] \<and> b \<le> a \<and> c \<le> b \<and> d \<le> c \<and> e \<le> d"
proof -
  have "length (sort xs) = 5" using assms by simp
  then obtain e d c b a where s: "sort xs = [e, d, c, b, a]"
    using list_five by blast
  have "sorted (sort xs)" by simp
  with s have "e \<le> d \<and> d \<le> c \<and> c \<le> b \<and> b \<le> a" by simp
  with s show ?thesis by (simp add: sorted_desc_def)
qed

lemma eval5_wf_values:
  assumes v: "sorted_desc (map (\<lambda>card. numeric_value (rank card)) cs) = [a, b, c, d, e]"
    and o: "b \<le> a" "c \<le> b" "d \<le> c" "e \<le> d"
  shows "\<exists>h. evaluate_five_cards cs = Inr h \<and> well_formed h"
proof -
  consider "a = b" | "b < a" using o by linarith
  then show ?thesis
  proof cases
    case 1
    show ?thesis
      using o 1
      apply (cases "b = c"; cases "c = d"; cases "d = e")
      apply (simp_all add: evaluate_five_cards_def v Let_def Counter_def has_count_def
          values_with_count_def first_def well_formed_def)
      done
  next
    case 2
    show ?thesis
      using o 2
      apply (cases "b = c"; cases "c = d"; cases "d = e")
      apply (simp_all add: evaluate_five_cards_def v Let_def Counter_def has_count_def
          values_with_count_def first_def well_formed_def)
      done
  qed
qed

lemma hand_rank_value_inj: "hand_rank_value r = hand_rank_value s \<longleftrightarrow> r = s"
  by (cases r; cases s; simp)

lemma hs_eq_iff: "hs_eq a b \<longleftrightarrow> a = b"
  by (cases a; cases b) (auto simp: hs_eq_def hand_rank_value_inj)

lemma kickers_lt_irrefl: "\<not> kickers_lt (zip xs xs)"
  by (induction xs) auto

lemma kickers_lt_asym: "kickers_lt (zip xs ys) \<Longrightarrow> \<not> kickers_lt (zip ys xs)"
proof (induction xs arbitrary: ys)
  case Nil
  then show ?case by simp
next
  case (Cons x xs)
  show ?case
  proof (cases ys)
    case Nil
    then show ?thesis by simp
  next
    case (Cons y ys')
    with Cons.prems Cons.IH [of ys'] show ?thesis
      by (cases "x = y") auto
  qed
qed

lemma kickers_lt_trans:
  "length xs = length ys \<Longrightarrow> length ys = length zs \<Longrightarrow>
   kickers_lt (zip xs ys) \<Longrightarrow> kickers_lt (zip ys zs) \<Longrightarrow> kickers_lt (zip xs zs)"
proof (induction xs ys zs rule: list_induct3)
  case Nil
  then show ?case by simp
next
  case (Cons x xs y ys z zs)
  show ?case
  proof (cases "x = y")
    case True
    with Cons show ?thesis by (cases "y = z") simp_all
  next
    case False
    with Cons.prems show ?thesis by (cases "y = z") auto
  qed
qed

lemma kickers_lt_total:
  "length xs = length ys \<Longrightarrow> kickers_lt (zip xs ys) \<or> xs = ys \<or> kickers_lt (zip ys xs)"
proof (induction xs ys rule: list_induct2)
  case Nil
  then show ?case by simp
next
  case (Cons x xs y ys)
  then show ?case by (cases "x = y") auto
qed

lemma hs_lt_iff:
  "hs_lt a b \<longleftrightarrow>
     hand_rank_value (hs_rank a) < hand_rank_value (hs_rank b) \<or>
     hand_rank_value (hs_rank a) = hand_rank_value (hs_rank b) \<and>
     (primary_value a < primary_value b \<or>
      primary_value a = primary_value b \<and>
      (secondary_value a < secondary_value b \<or>
       secondary_value a = secondary_value b \<and> kickers_lt (zip (kickers a) (kickers b))))"
  by (auto simp: hs_lt_def)

lemma hs_lt_irrefl: "\<not> hs_lt a a"
  by (simp add: hs_lt_iff kickers_lt_irrefl)

lemma hs_lt_asym: "hs_lt a b \<Longrightarrow> \<not> hs_lt b a"
proof
  assume ab: "hs_lt a b" and ba: "hs_lt b a"
  from ab consider
      (r) "hand_rank_value (hs_rank a) < hand_rank_value (hs_rank b)"
    | (p) "hand_rank_value (hs_rank a) = hand_rank_value (hs_rank b)"
          "primary_value a < primary_value b"
    | (s) "hand_rank_value (hs_rank a) = hand_rank_value (hs_rank b)"
          "primary_value a = primary_value b" "secondary_value a < secondary_value b"
    | (k) "hand_rank_value (hs_rank a) = hand_rank_value (hs_rank b)"
          "primary_value a = primary_value b" "secondary_value a = secondary_value b"
          "kickers_lt (zip (kickers a) (kickers b))"
    unfolding hs_lt_iff by blast
  then show False
  proof cases
    case r
    with ba show False by (simp add: hs_lt_iff)
  next
    case p
    with ba show False by (simp add: hs_lt_iff)
  next
    case s
    with ba show False by (simp add: hs_lt_iff)
  next
    case k
    with ba kickers_lt_asym [OF k(4)] show False by (simp add: hs_lt_iff)
  qed
qed

lemma same_rank_same_length:
  assumes "well_formed a" and "well_formed b"
    and "hand_rank_value (hs_rank a) = hand_rank_value (hs_rank b)"
  shows "length (kickers a) = length (kickers b)"
proof -
  from assms(3) have "hs_rank a = hs_rank b"
    by (simp only: hand_rank_value_inj)
  with assms(1,2) show ?thesis
    unfolding well_formed_def by (simp only:)
qed

lemma hs_lt_trans:
  assumes wa: "well_formed a" and wb: "well_formed b" and wc: "well_formed c"
    and ab: "hs_lt a b" and bc: "hs_lt b c"
  shows "hs_lt a c"
proof -
  from ab consider
      (r) "hand_rank_value (hs_rank a) < hand_rank_value (hs_rank b)"
    | (p) "hand_rank_value (hs_rank a) = hand_rank_value (hs_rank b)"
          "primary_value a < primary_value b"
    | (s) "hand_rank_value (hs_rank a) = hand_rank_value (hs_rank b)"
          "primary_value a = primary_value b" "secondary_value a < secondary_value b"
    | (k) "hand_rank_value (hs_rank a) = hand_rank_value (hs_rank b)"
          "primary_value a = primary_value b" "secondary_value a = secondary_value b"
          "kickers_lt (zip (kickers a) (kickers b))"
    unfolding hs_lt_iff by blast
  then show ?thesis
  proof cases
    case r
    with bc show ?thesis by (auto simp: hs_lt_iff)
  next
    case p
    with bc show ?thesis by (auto simp: hs_lt_iff)
  next
    case s
    with bc show ?thesis by (auto simp: hs_lt_iff)
  next
    case k
    show ?thesis
    proof (cases "hand_rank_value (hs_rank b) = hand_rank_value (hs_rank c) \<and>
        primary_value b = primary_value c \<and> secondary_value b = secondary_value c")
      case True
      with bc have kbc: "kickers_lt (zip (kickers b) (kickers c))"
        by (simp add: hs_lt_iff)
      have l1: "length (kickers a) = length (kickers b)"
        using wa wb k(1) by (rule same_rank_same_length)
      have l2: "length (kickers b) = length (kickers c)"
        using wb wc True by (intro same_rank_same_length) simp_all
      from kickers_lt_trans [OF l1 l2 k(4) kbc] k True show ?thesis
        by (simp add: hs_lt_iff)
    next
      case False
      with bc k show ?thesis by (auto simp: hs_lt_iff)
    qed
  qed
qed

lemma hs_lt_total:
  assumes wa: "well_formed a" and wb: "well_formed b"
  shows "hs_lt a b \<or> a = b \<or> hs_lt b a"
proof (cases "hand_rank_value (hs_rank a) = hand_rank_value (hs_rank b) \<and>
        primary_value a = primary_value b \<and> secondary_value a = secondary_value b")
  case True
  then have "length (kickers a) = length (kickers b)"
    using wa wb by (intro same_rank_same_length) simp_all
  from kickers_lt_total [OF this]
  consider "kickers_lt (zip (kickers a) (kickers b))" | "kickers a = kickers b"
    | "kickers_lt (zip (kickers b) (kickers a))"
    by blast
  then show ?thesis
  proof cases
    case 1
    with True show ?thesis by (simp add: hs_lt_iff)
  next
    case 2
    with True have "a = b"
      by (simp add: HandStrength.expand hand_rank_value_inj)
    then show ?thesis by simp
  next
    case 3
    with True show ?thesis by (simp add: hs_lt_iff)
  qed
next
  case False
  then show ?thesis by (auto simp: hs_lt_iff)
qed

lemma hs_gt_iff:
  assumes "well_formed a" and "well_formed b"
  shows "hs_gt a b \<longleftrightarrow> hs_lt b a"
  using hs_lt_total [OF assms] hs_lt_asym [of a b] hs_lt_irrefl [of a]
  unfolding hs_gt_def hs_eq_iff by blast

lemma evaluate_five_cards_well_formed:
  assumes "length cs = 5"
  shows "\<exists>h. evaluate_five_cards cs = Inr h \<and> well_formed h"
proof -
  have "length (map (\<lambda>card. numeric_value (rank card)) cs) = 5"
    using assms by simp
  from five_sorted [OF this] obtain a b c d e
    where "sorted_desc (map (\<lambda>card. numeric_value (rank card)) cs) = [a, b, c, d, e]"
      "b \<le> a" "c \<le> b" "d \<le> c" "e \<le> d"
    by blast
  then show ?thesis by (rule eval5_wf_values)
qed

text \<open>
  C2: on the strengths of any three five-card hands, \<open>__lt__\<close> is asymmetric and
  transitive; exactly one of \<open>a < b\<close>, \<open>a == b\<close>, \<open>a > b\<close> holds; \<open>a > b\<close> is \<open>b < a\<close> and
  \<open>a == b\<close> is equality of all four fields; and a lower category is a lower strength
  whatever the primary value, secondary value and kickers are.
\<close>

theorem hand_strength_strict_total_order:
  assumes "length c1 = 5" and "length c2 = 5" and "length c3 = 5"
    and "evaluate_five_cards c1 = Inr a" and "evaluate_five_cards c2 = Inr b"
    and "evaluate_five_cards c3 = Inr c"
  shows "\<not> (hs_lt a b \<and> hs_lt b a) \<and>
         (hs_lt a b \<and> hs_lt b c \<longrightarrow> hs_lt a c) \<and>
         ((hs_lt a b \<and> \<not> hs_eq a b \<and> \<not> hs_gt a b) \<or>
          (hs_eq a b \<and> \<not> hs_lt a b \<and> \<not> hs_gt a b) \<or>
          (hs_gt a b \<and> \<not> hs_lt a b \<and> \<not> hs_eq a b)) \<and>
         (hs_gt a b \<longleftrightarrow> hs_lt b a) \<and>
         (hs_eq a b \<longleftrightarrow> a = b) \<and>
         (hand_rank_value (hs_rank a) < hand_rank_value (hs_rank b) \<longrightarrow> hs_lt a b \<and> hs_gt b a)"
proof -
  from evaluate_five_cards_well_formed [OF assms(1)] assms(4) have wa: "well_formed a" by simp
  from evaluate_five_cards_well_formed [OF assms(2)] assms(5) have wb: "well_formed b" by simp
  from evaluate_five_cards_well_formed [OF assms(3)] assms(6) have wc: "well_formed c" by simp
  have 1: "\<not> (hs_lt a b \<and> hs_lt b a)"
    using hs_lt_asym by blast
  have 2: "hs_lt a b \<and> hs_lt b c \<longrightarrow> hs_lt a c"
    using hs_lt_trans [OF wa wb wc] by blast
  have 3: "(hs_lt a b \<and> \<not> hs_eq a b \<and> \<not> hs_gt a b) \<or>
          (hs_eq a b \<and> \<not> hs_lt a b \<and> \<not> hs_gt a b) \<or>
          (hs_gt a b \<and> \<not> hs_lt a b \<and> \<not> hs_eq a b)"
    using hs_lt_irrefl [of a] by (auto simp: hs_gt_def hs_eq_iff)
  have 4: "hs_gt a b \<longleftrightarrow> hs_lt b a"
    by (rule hs_gt_iff [OF wa wb])
  have 5: "hand_rank_value (hs_rank a) < hand_rank_value (hs_rank b) \<longrightarrow> hs_lt a b \<and> hs_gt b a"
    by (auto simp: hs_lt_def hs_gt_def hs_eq_def)
  from 1 2 3 4 5 show ?thesis by (simp add: hs_eq_iff)
qed


theorem hand_strength_strict_total_order_witness:
  "length [Card ACE SPADES, Card ACE HEARTS, Card KING SPADES, Card THREE CLUBS, Card TWO CLUBS] = 5 \<and>
   evaluate_five_cards
     [Card ACE SPADES, Card ACE HEARTS, Card KING SPADES, Card THREE CLUBS, Card TWO CLUBS]
     = Inr (HandStrength ONE_PAIR 14 0 [13, 3, 2]) \<and>
   evaluate_five_cards
     [Card ACE SPADES, Card ACE HEARTS, Card QUEEN SPADES, Card JACK CLUBS, Card TEN CLUBS]
     = Inr (HandStrength ONE_PAIR 14 0 [12, 11, 10]) \<and>
   evaluate_five_cards
     [Card TWO SPADES, Card TWO HEARTS, Card THREE SPADES, Card THREE CLUBS, Card FOUR CLUBS]
     = Inr (HandStrength TWO_PAIR 3 2 [4]) \<and>
   hs_lt (HandStrength ONE_PAIR 14 0 [12, 11, 10]) (HandStrength ONE_PAIR 14 0 [13, 3, 2]) \<and>
   hs_lt (HandStrength ONE_PAIR 14 0 [13, 3, 2]) (HandStrength TWO_PAIR 3 2 [4]) \<and>
   hs_lt (HandStrength ONE_PAIR 14 0 [12, 11, 10]) (HandStrength TWO_PAIR 3 2 [4]) \<and>
   hs_gt (HandStrength TWO_PAIR 3 2 [4]) (HandStrength ONE_PAIR 14 0 [12, 11, 10]) \<and>
   \<not> hs_lt (HandStrength ONE_PAIR 14 0 [13, 3, 2]) (HandStrength ONE_PAIR 14 0 [12, 11, 10])"
proof -
  let ?c1 = "[Card ACE SPADES, Card ACE HEARTS, Card QUEEN SPADES, Card JACK CLUBS, Card TEN CLUBS]"
  let ?c2 = "[Card ACE SPADES, Card ACE HEARTS, Card KING SPADES, Card THREE CLUBS, Card TWO CLUBS]"
  let ?c3 = "[Card TWO SPADES, Card TWO HEARTS, Card THREE SPADES, Card THREE CLUBS, Card FOUR CLUBS]"
  let ?a = "HandStrength ONE_PAIR 14 0 [12, 11, 10]"
  let ?b = "HandStrength ONE_PAIR 14 0 [13, 3, 2]"
  let ?c = "HandStrength TWO_PAIR 3 2 [4]"
  have l: "length ?c1 = 5" "length ?c2 = 5" "length ?c3 = 5"
    by simp_all
  have e1: "evaluate_five_cards ?c1 = Inr ?a" by code_simp
  have e2: "evaluate_five_cards ?c2 = Inr ?b" by code_simp
  have e3: "evaluate_five_cards ?c3 = Inr ?c" by code_simp
  have ab: "hs_lt ?a ?b" by code_simp
  have bc: "hs_lt ?b ?c" by code_simp
  note t = hand_strength_strict_total_order [OF l e1 e2 e3]
  from t ab bc have ac: "hs_lt ?a ?c" by blast
  note t' = hand_strength_strict_total_order [OF l(3) l(1) l(2) e3 e1 e2]
  from t' ac have ca: "hs_gt ?c ?a" by blast
  from t ab have nba: "\<not> hs_lt ?b ?a" by blast
  from l e1 e2 e3 ab bc ac ca nba show ?thesis by simp
qed

subsection \<open>The best five of up to seven cards\<close>

lemma combinations_length: "c \<in> set (combinations xs k) \<Longrightarrow> length c = k"
  by (induction xs k arbitrary: c rule: combinations.induct) auto

lemma combinations_nonempty: "k \<le> length xs \<Longrightarrow> combinations xs k \<noteq> []"
  by (induction xs k rule: combinations.induct) auto

lemma combinations_complete:
  "M \<subseteq># mset xs \<Longrightarrow> size M = k \<Longrightarrow> \<exists>c \<in> set (combinations xs k). mset c = M"
proof (induction xs k arbitrary: M rule: combinations.induct)
  case (1 xs)
  then show ?case by simp
next
  case (2 r)
  then show ?case by simp
next
  case (3 x xs r)
  show ?case
  proof (cases "x \<in># M")
    case True
    then have "M - {#x#} \<subseteq># mset xs"
      using "3.prems"(1) by (simp add: insert_subset_eq_iff subset_eq_diff_conv)
    moreover have "size (M - {#x#}) = r"
      using True "3.prems"(2) by (simp add: size_Diff_singleton)
    ultimately obtain c where c: "c \<in> set (combinations xs r)" "mset c = M - {#x#}"
      using "3.IH"(1) by blast
    then have "mset (x # c) = M" using True by simp
    with c(1) show ?thesis
      by (intro bexI [of _ "x # c"]) auto
  next
    case False
    then have "M \<subseteq># mset xs"
      using "3.prems"(1) by (metis diff_single_trivial mset.simps(2) subset_eq_diff_conv add_mset_add_single)
    then obtain c where "c \<in> set (combinations xs (Suc r))" "mset c = M"
      using "3.IH"(2) "3.prems"(2) by blast
    then show ?thesis by auto
  qed
qed

lemma distinct_subset_mset:
  assumes "distinct xs" and "set xs \<subseteq> set ys"
  shows "mset xs \<subseteq># mset ys"
proof (rule mset_subset_eqI)
  fix a
  show "count (mset xs) a \<le> count (mset ys) a"
  proof (cases "a \<in> set xs")
    case True
    then have "count (mset xs) a = 1"
      using assms(1) by (simp add: distinct_count_atmost_1)
    moreover have "a \<in> set ys" using True assms(2) by blast
    then have "count (mset ys) a \<ge> 1"
      by (simp add: Suc_le_eq count_greater_zero_iff)
    ultimately show ?thesis by simp
  next
    case False
    then have "count (mset xs) a = 0"
      by (simp add: count_eq_zero_iff)
    then show ?thesis by linarith
  qed
qed

lemma evaluate_five_cards_mset:
  assumes "mset x = mset y"
  shows "evaluate_five_cards x = evaluate_five_cards y"
proof -
  let ?f = "\<lambda>card. numeric_value (rank card)"
  have "mset (map ?f x) = mset (map ?f y)"
    using assms by (metis mset_map)
  then have "sort (map ?f x) = sort (map ?f y)"
    by (metis properties_for_sort mset_sort sorted_sort)
  then have v: "sorted_desc (map ?f x) = sorted_desc (map ?f y)"
    by (simp add: sorted_desc_def)
  have "length x = length y"
    using assms by (rule mset_eq_length)
  moreover have "set (map suit x) = set (map suit y)"
    using assms by (metis mset_map set_mset_mset)
  then have "length (remdups (map suit x)) = length (remdups (map suit y))"
    by (simp add: length_remdups_card_conv)
  ultimately have f: "is_flush x = is_flush y"
    by (simp add: is_flush_def)
  show ?thesis
    unfolding evaluate_five_cards_def v f ..
qed


lemma best_of_Some:
  assumes "\<forall>x \<in> set css. length x = 5" and "well_formed b0"
  shows "\<exists>best. best_of css (Some b0) = Inr (Some best) \<and> well_formed best \<and>
           (best = b0 \<or> (\<exists>x \<in> set css. evaluate_five_cards x = Inr best)) \<and>
           (hs_lt b0 best \<or> b0 = best) \<and>
           (\<forall>x \<in> set css. \<exists>h. evaluate_five_cards x = Inr h \<and> (hs_lt h best \<or> h = best))"
  using assms
proof (induction css arbitrary: b0)
  case Nil
  then show ?case by simp
next
  case (Cons x css)
  from Cons.prems(1) have "length x = 5" by simp
  from evaluate_five_cards_well_formed [OF this]
  obtain h where h: "evaluate_five_cards x = Inr h" "well_formed h"
    by blast
  define b1 where "b1 = (if hs_gt h b0 then h else b0)"
  have wb1: "well_formed b1"
    using h(2) Cons.prems(2) by (simp add: b1_def)
  have step: "best_of (x # css) (Some b0) = best_of css (Some b1)"
    by (simp add: h(1) b1_def)
  have b0b1: "hs_lt b0 b1 \<or> b0 = b1"
    using hs_gt_iff [OF h(2) Cons.prems(2)] by (simp add: b1_def)
  have hb1: "hs_lt h b1 \<or> h = b1"
    unfolding b1_def by (simp add: hs_gt_def hs_eq_iff)
  from Cons.prems(1) have rest: "\<forall>x \<in> set css. length x = 5" by simp
  from Cons.IH [OF rest wb1] obtain best
    where best: "best_of css (Some b1) = Inr (Some best)" "well_formed best"
      "best = b1 \<or> (\<exists>x \<in> set css. evaluate_five_cards x = Inr best)"
      "hs_lt b1 best \<or> b1 = best"
      "\<forall>x \<in> set css. \<exists>h. evaluate_five_cards x = Inr h \<and> (hs_lt h best \<or> h = best)"
    by blast
  have le_b0: "hs_lt b0 best \<or> b0 = best"
    using b0b1 best(4) hs_lt_trans [OF Cons.prems(2) wb1 best(2)] by blast
  have le_h: "hs_lt h best \<or> h = best"
    using hb1 best(4) hs_lt_trans [OF h(2) wb1 best(2)] by blast
  have src: "best = b0 \<or> (\<exists>y \<in> set (x # css). evaluate_five_cards y = Inr best)"
    using best(3) h(1) by (auto simp: b1_def split: if_splits)
  have all: "\<forall>y \<in> set (x # css). \<exists>h. evaluate_five_cards y = Inr h \<and> (hs_lt h best \<or> h = best)"
    using best(5) h(1) le_h by simp
  from step best(1,2) src le_b0 all show ?case
    by (intro exI [of _ best]) (simp only: simp_thms)
qed

lemma best_of_None:
  assumes "\<forall>x \<in> set css. length x = 5" and "css \<noteq> []"
  shows "\<exists>best. best_of css None = Inr (Some best) \<and>
           (\<exists>x \<in> set css. evaluate_five_cards x = Inr best) \<and>
           (\<forall>x \<in> set css. \<exists>h. evaluate_five_cards x = Inr h \<and> (hs_lt h best \<or> h = best))"
proof -
  from assms(2) obtain x rest where css: "css = x # rest"
    by (cases css) auto
  with assms(1) have "length x = 5" and rest: "\<forall>x \<in> set rest. length x = 5"
    by simp_all
  from evaluate_five_cards_well_formed [OF this(1)]
  obtain h where h: "evaluate_five_cards x = Inr h" "well_formed h"
    by blast
  have step: "best_of css None = best_of rest (Some h)"
    by (simp add: css h(1))
  from best_of_Some [OF rest h(2)] obtain best
    where best: "best_of rest (Some h) = Inr (Some best)"
      "best = h \<or> (\<exists>x \<in> set rest. evaluate_five_cards x = Inr best)"
      "hs_lt h best \<or> h = best"
      "\<forall>x \<in> set rest. \<exists>h. evaluate_five_cards x = Inr h \<and> (hs_lt h best \<or> h = best)"
    by blast
  have src: "\<exists>y \<in> set css. evaluate_five_cards y = Inr best"
    using best(2) h(1) by (auto simp: css)
  have all: "\<forall>y \<in> set css. \<exists>h. evaluate_five_cards y = Inr h \<and> (hs_lt h best \<or> h = best)"
    using best(3,4) h(1) by (simp add: css)
  from step best(1) src all show ?thesis
    by (intro exI [of _ best]) (simp only: simp_thms)
qed

lemma combinations_subset:
  "c \<in> set (combinations xs k) \<Longrightarrow> set c \<subseteq> set xs \<and> (distinct xs \<longrightarrow> distinct c)"
proof (induction xs k arbitrary: c rule: combinations.induct)
  case (1 xs)
  then show ?case by simp
next
  case (2 r)
  then show ?case by simp
next
  case (3 x xs r)
  from "3.prems" consider c' where "c = x # c'" "c' \<in> set (combinations xs r)"
    | "c \<in> set (combinations xs (Suc r))"
    by auto
  then show ?case
  proof cases
    case 1
    from "3.IH"(1) [OF 1(2)] have "set c' \<subseteq> set xs" "distinct xs \<longrightarrow> distinct c'"
      by simp_all
    with 1(1) show ?thesis by auto
  next
    case 2
    from "3.IH"(2) [OF 2] show ?thesis by auto
  qed
qed

text \<open>
  C1: for more than five and up to seven distinct cards, \<open>evaluate_hand\<close> returns a
  strength that \<open>_evaluate_five_cards\<close> gives to some five-card subset of the input,
  and the strength of every five-card subset is below or equal to it in the order of
  \<open>HandStrength\<close>: the maximum over all five-card subsets. In particular the seven
  cards A\<clubsuit> A\<diamondsuit> A\<heartsuit> K\<clubsuit> K\<diamondsuit> 2\<spadesuit> 3\<spadesuit> evaluate to a Full House with primary value
  14 and secondary value 13.
\<close>

theorem evaluate_hand_is_best_five_card_subset:
  "(distinct cs \<and> 5 < length cs \<and> length cs \<le> 7 \<longrightarrow>
      (\<exists>best. evaluate_hand cs = Inr best \<and>
         (\<exists>five. distinct five \<and> set five \<subseteq> set cs \<and> length five = 5 \<and>
            evaluate_five_cards five = Inr best) \<and>
         (\<forall>five. distinct five \<and> set five \<subseteq> set cs \<and> length five = 5 \<longrightarrow>
            (\<exists>h. evaluate_five_cards five = Inr h \<and> (hs_lt h best \<or> hs_eq h best))))) \<and>
   evaluate_hand [Card ACE CLUBS, Card ACE DIAMONDS, Card ACE HEARTS, Card KING CLUBS,
       Card KING DIAMONDS, Card TWO SPADES, Card THREE SPADES]
     = Inr (HandStrength FULL_HOUSE 14 13 [])"
proof (intro conjI impI)
  assume hyp: "distinct cs \<and> 5 < length cs \<and> length cs \<le> 7"
  then have dist: "distinct cs" and len: "5 \<le> length cs" by simp_all
  let ?css = "combinations cs 5"
  have five: "\<forall>x \<in> set ?css. length x = 5"
    by (simp add: combinations_length)
  have ne: "?css \<noteq> []"
    using len by (rule combinations_nonempty)
  from best_of_None [OF five ne] obtain best
    where best: "best_of ?css None = Inr (Some best)"
      "\<exists>x \<in> set ?css. evaluate_five_cards x = Inr best"
      "\<forall>x \<in> set ?css. \<exists>h. evaluate_five_cards x = Inr h \<and> (hs_lt h best \<or> h = best)"
    by blast
  have ev: "evaluate_hand cs = Inr best"
    using len best(1) by (simp add: evaluate_hand_def)
  from best(2) obtain x where x: "x \<in> set ?css" "evaluate_five_cards x = Inr best"
    by blast
  have attained: "\<exists>five. distinct five \<and> set five \<subseteq> set cs \<and> length five = 5 \<and>
            evaluate_five_cards five = Inr best"
    using x combinations_subset [OF x(1)] combinations_length [OF x(1)] dist by blast
  have bound: "\<exists>h. evaluate_five_cards five = Inr h \<and> (hs_lt h best \<or> hs_eq h best)"
    if f: "distinct five \<and> set five \<subseteq> set cs \<and> length five = 5" for five
  proof -
    from f have "mset five \<subseteq># mset cs"
      by (simp add: distinct_subset_mset)
    moreover from f have "size (mset five) = 5" by simp
    ultimately obtain c where c: "c \<in> set ?css" "mset c = mset five"
      using combinations_complete by blast
    from best(3) c(1) obtain h where "evaluate_five_cards c = Inr h" "hs_lt h best \<or> h = best"
      by blast
    with evaluate_five_cards_mset [OF c(2)] have "evaluate_five_cards five = Inr h"
      and "hs_lt h best \<or> hs_eq h best"
      by (simp_all add: hs_eq_iff)
    then show ?thesis by blast
  qed
  from ev attained bound
  show "\<exists>best. evaluate_hand cs = Inr best \<and>
         (\<exists>five. distinct five \<and> set five \<subseteq> set cs \<and> length five = 5 \<and>
            evaluate_five_cards five = Inr best) \<and>
         (\<forall>five. distinct five \<and> set five \<subseteq> set cs \<and> length five = 5 \<longrightarrow>
            (\<exists>h. evaluate_five_cards five = Inr h \<and> (hs_lt h best \<or> hs_eq h best)))"
    by blast
next
  show "evaluate_hand [Card ACE CLUBS, Card ACE DIAMONDS, Card ACE HEARTS, Card KING CLUBS,
       Card KING DIAMONDS, Card TWO SPADES, Card THREE SPADES]
     = Inr (HandStrength FULL_HOUSE 14 13 [])"
    by code_simp
qed

theorem evaluate_hand_is_best_five_card_subset_witness:
  "distinct [Card ACE CLUBS, Card ACE DIAMONDS, Card ACE HEARTS, Card KING CLUBS,
       Card KING DIAMONDS, Card TWO SPADES, Card THREE SPADES] \<and>
   5 < length [Card ACE CLUBS, Card ACE DIAMONDS, Card ACE HEARTS, Card KING CLUBS,
       Card KING DIAMONDS, Card TWO SPADES, Card THREE SPADES] \<and>
   length [Card ACE CLUBS, Card ACE DIAMONDS, Card ACE HEARTS, Card KING CLUBS,
       Card KING DIAMONDS, Card TWO SPADES, Card THREE SPADES] \<le> 7 \<and>
   evaluate_hand [Card ACE CLUBS, Card ACE DIAMONDS, Card ACE HEARTS, Card KING CLUBS,
       Card KING DIAMONDS, Card TWO SPADES, Card THREE SPADES]
     = Inr (HandStrength FULL_HOUSE 14 13 []) \<and>
   (\<exists>h. evaluate_five_cards [Card ACE CLUBS, Card ACE DIAMONDS, Card KING CLUBS,
            Card TWO SPADES, Card THREE SPADES] = Inr h \<and>
        (hs_lt h (HandStrength FULL_HOUSE 14 13 []) \<or> hs_eq h (HandStrength FULL_HOUSE 14 13 [])))"
proof -
  let ?cs = "[Card ACE CLUBS, Card ACE DIAMONDS, Card ACE HEARTS, Card KING CLUBS,
       Card KING DIAMONDS, Card TWO SPADES, Card THREE SPADES]"
  let ?five = "[Card ACE CLUBS, Card ACE DIAMONDS, Card KING CLUBS, Card TWO SPADES,
       Card THREE SPADES]"
  have h: "distinct ?cs \<and> 5 < length ?cs \<and> length ?cs \<le> 7"
    by simp
  have f: "distinct ?five \<and> set ?five \<subseteq> set ?cs \<and> length ?five = 5"
    by simp
  note t = evaluate_hand_is_best_five_card_subset [of ?cs]
  from t have ev: "evaluate_hand ?cs = Inr (HandStrength FULL_HOUSE 14 13 [])"
    by (rule conjunct2)
  from t h obtain best where best: "evaluate_hand ?cs = Inr best"
    "\<forall>five. distinct five \<and> set five \<subseteq> set ?cs \<and> length five = 5 \<longrightarrow>
       (\<exists>h. evaluate_five_cards five = Inr h \<and> (hs_lt h best \<or> hs_eq h best))"
    by blast
  from best(1) ev have "best = HandStrength FULL_HOUSE 14 13 []"
    by simp
  with best(2) f have "\<exists>h. evaluate_five_cards ?five = Inr h \<and>
        (hs_lt h (HandStrength FULL_HOUSE 14 13 []) \<or> hs_eq h (HandStrength FULL_HOUSE 14 13 []))"
    by blast
  with h ev show ?thesis by blast
qed

section \<open>Properties of the deck and the betting engine\<close>

subsection \<open>Dealing\<close>

lemma deal_insufficient:
  "n > int (length (cards d)) \<Longrightarrow> deal d n = Inl (InsufficientCards, d)"
  by (simp add: deal_def)

lemma deal_one_nonempty:
  assumes "cards d \<noteq> []"
  shows "deal_one d = Inr (last (cards d), d\<lparr>cards := butlast (cards d)\<rparr>)"
proof -
  from assms obtain ys y where "cards d = ys @ [y]"
    by (metis rev_exhaust)
  then show ?thesis
    by (simp add: deal_one_def deal_def)
qed

lemma deal_one_empty: "cards d = [] \<Longrightarrow> deal_one d = Inl (InsufficientCards, d)"
  by (simp add: deal_one_def deal_def)

text \<open>
  C8, as the code has it: \<open>Deck.deal\<close> asked for more cards than remain fails with
  InsufficientCards and leaves the deck as it was. \<open>deal_flop\<close> with fewer than four
  cards in the deck fails with InsufficientCards and leaves the community cards, the
  round and every other field but the deck unchanged; the deck has lost its top card,
  the burn card, unless it was empty.
\<close>

theorem deal_flop_insufficient_cards:
  "(n > int (length (cards d)) \<longrightarrow> deal d n = Inl (InsufficientCards, d)) \<and>
   (length (cards (deck gs)) < 4 \<longrightarrow>
      deal_flop gs =
        Some (Inl (InsufficientCards,
                   gs\<lparr>deck := (deck gs)\<lparr>cards := butlast (cards (deck gs))\<rparr>\<rparr>)))"
proof (intro conjI impI)
  assume "n > int (length (cards d))"
  then show "deal d n = Inl (InsufficientCards, d)"
    by (rule deal_insufficient)
next
  assume few: "length (cards (deck gs)) < 4"
  show "deal_flop gs =
        Some (Inl (InsufficientCards,
                   gs\<lparr>deck := (deck gs)\<lparr>cards := butlast (cards (deck gs))\<rparr>\<rparr>))"
  proof (cases "cards (deck gs) = []")
    case True
    then show ?thesis
      by (simp add: deal_flop_def deal_street_def deal_one_empty)
  next
    case False
    with few show ?thesis
      by (simp add: deal_flop_def deal_street_def deal_one_nonempty deal_insufficient)
  qed
qed

theorem deal_flop_insufficient_cards_witness:
  "4 > int (length (cards \<lparr>cards = [Card ACE HEARTS]\<rparr>)) \<and>
   deal \<lparr>cards = [Card ACE HEARTS]\<rparr> 4 = Inl (InsufficientCards, \<lparr>cards = [Card ACE HEARTS]\<rparr>) \<and>
   length (cards (deck short_deck_table)) < 4 \<and>
   deal_flop short_deck_table =
     Some (Inl (InsufficientCards,
                short_deck_table\<lparr>deck := \<lparr>cards = [Card TWO SPADES, Card THREE SPADES]\<rparr>\<rparr>))"
proof -
  have h1: "4 > int (length (cards \<lparr>cards = [Card ACE HEARTS]\<rparr>))"
    by simp
  have h2: "length (cards (deck short_deck_table)) < 4"
    by (simp add: short_deck_table_def new_game_def)
  from deal_flop_insufficient_cards
    [where n = 4 and d = "\<lparr>cards = [Card ACE HEARTS]\<rparr>" and gs = short_deck_table] h1 h2
  show ?thesis
    by (simp add: short_deck_table_def new_game_def)
qed

text \<open>
  C8 as stated fails: with three cards in the deck \<open>deal_flop\<close> raises InsufficientCards
  after the burn card has left the deck.
\<close>

theorem deal_flop_burns_before_failing:
  "deal_flop short_deck_table =
     Some (Inl (InsufficientCards,
                short_deck_table\<lparr>deck := \<lparr>cards = [Card TWO SPADES, Card THREE SPADES]\<rparr>\<rparr>)) \<and>
   cards (deck short_deck_table) = [Card TWO SPADES, Card THREE SPADES, Card FOUR SPADES] \<and>
   deck (short_deck_table\<lparr>deck := \<lparr>cards = [Card TWO SPADES, Card THREE SPADES]\<rparr>\<rparr>)
     \<noteq> deck short_deck_table"
  by (simp add: short_deck_table_def new_game_def deal_flop_def deal_street_def
      deal_one_def deal_def)

subsection \<open>Actions of players who may not act, and of the fifth action\<close>

text \<open>
  C6: for a seated player whose folded or all-in flag is set, \<open>execute_action\<close> with any
  action and amount returns False and the state after the call is the state before it:
  pot, stacks, bets, flags and histories are unchanged.
\<close>

theorem execute_action_rejects_folded_or_all_in:
  "i < length (players gs) \<Longrightarrow> folded (players gs ! i) \<or> all_in (players gs ! i) \<Longrightarrow>
   execute_action gs i action amount = (False, gs)"
  by (simp add: execute_action_def Let_def)

theorem execute_action_rejects_folded_or_all_in_witness:
  "1 < length (players idle_table) \<and>
   (folded (players idle_table ! 1) \<or> all_in (players idle_table ! 1)) \<and>
   execute_action idle_table 1 RAISE 50 = (False, idle_table)"
proof -
  have h1: "1 < length (players idle_table)"
    by (simp add: idle_table_def new_game_def)
  have h2: "folded (players idle_table ! 1) \<or> all_in (players idle_table ! 1)"
    by (simp add: idle_table_def new_game_def new_player_def)
  from execute_action_rejects_folded_or_all_in [OF h1 h2, of RAISE 50] h1 h2
  show ?thesis by simp
qed

text \<open>
  C9: for a seated player who is neither folded nor all-in, \<open>execute_action\<close> with
  \<open>Action.ALL_IN\<close> returns True; the pot, the table's current bet, every stack, every
  player's current bet and all folded and all-in flags are unchanged, and the player's
  history has the entry (ALL\_IN, amount) appended, also under the current round.
\<close>

theorem execute_action_all_in_only_records:
  assumes "i < length (players gs)"
    and "\<not> folded (players gs ! i)" and "\<not> all_in (players gs ! i)"
  shows "execute_action gs i ALL_IN amount =
           (True, gs\<lparr>players := (players gs)
              [i := (players gs ! i)\<lparr>action_history :=
                 add_action (action_history (players gs ! i)) ALL_IN amount
                   (round_value (current_round gs))\<rparr>]\<rparr>) \<and>
         pot (snd (execute_action gs i ALL_IN amount)) = pot gs \<and>
         current_bet (snd (execute_action gs i ALL_IN amount)) = current_bet gs \<and>
         map stack (players (snd (execute_action gs i ALL_IN amount)))
           = map stack (players gs) \<and>
         map p_current_bet (players (snd (execute_action gs i ALL_IN amount)))
           = map p_current_bet (players gs) \<and>
         map folded (players (snd (execute_action gs i ALL_IN amount)))
           = map folded (players gs) \<and>
         map all_in (players (snd (execute_action gs i ALL_IN amount)))
           = map all_in (players gs) \<and>
         actions (action_history (players (snd (execute_action gs i ALL_IN amount)) ! i))
           = actions (action_history (players gs ! i)) @ [(ALL_IN, amount)] \<and>
         bets (action_history (players (snd (execute_action gs i ALL_IN amount)) ! i))
           = bets (action_history (players gs ! i)) @ [amount] \<and>
         round_actions (action_history (players (snd (execute_action gs i ALL_IN amount)) ! i))
           = map (\<lambda>(k, v). if k = round_value (current_round gs)
                             then (k, v @ [(ALL_IN, amount)]) else (k, v))
               (round_actions (action_history (players gs ! i))) \<and>
         (\<forall>j < length (players gs). j \<noteq> i \<longrightarrow>
            players (snd (execute_action gs i ALL_IN amount)) ! j = players gs ! j)"
proof -
  have eq: "execute_action gs i ALL_IN amount =
           (True, gs\<lparr>players := (players gs)
              [i := (players gs ! i)\<lparr>action_history :=
                 add_action (action_history (players gs ! i)) ALL_IN amount
                   (round_value (current_round gs))\<rparr>]\<rparr>)"
    using assms by (simp add: execute_action_def Let_def)
  have same: "(map f (players gs))[i := f (players gs ! i)] = map f (players gs)" for f :: "Player \<Rightarrow> 'b"
    using assms(1) by (simp add: list_update_same_conv)
  show ?thesis
    using assms(1) by (simp add: eq map_update same add_action_def)
qed

theorem execute_action_all_in_only_records_witness:
  "0 < length (players (three_handed 1000)) \<and>
   \<not> folded (players (three_handed 1000) ! 0) \<and>
   \<not> all_in (players (three_handed 1000) ! 0) \<and>
   fst (execute_action (three_handed 1000) 0 ALL_IN 500) \<and>
   pot (snd (execute_action (three_handed 1000) 0 ALL_IN 500)) = 0 \<and>
   map stack (players (snd (execute_action (three_handed 1000) 0 ALL_IN 500)))
     = [1000, 1000, 1000] \<and>
   map all_in (players (snd (execute_action (three_handed 1000) 0 ALL_IN 500)))
     = [False, False, False] \<and>
   actions (action_history (players (snd (execute_action (three_handed 1000) 0 ALL_IN 500)) ! 0))
     = [(ALL_IN, 500)]"
proof -
  have h1: "0 < length (players (three_handed 1000))"
    by (simp add: three_handed_def new_game_def)
  have h2: "\<not> folded (players (three_handed 1000) ! 0)"
    by (simp add: three_handed_def new_game_def new_player_def)
  have h3: "\<not> all_in (players (three_handed 1000) ! 0)"
    by (simp add: three_handed_def new_game_def new_player_def)
  have v1: "pot (three_handed 1000) = 0"
    by (simp add: three_handed_def new_game_def)
  have v2: "map stack (players (three_handed 1000)) = [1000, 1000, 1000]"
    by (simp add: three_handed_def new_game_def new_player_def)
  have v3: "map all_in (players (three_handed 1000)) = [False, False, False]"
    by (simp add: three_handed_def new_game_def new_player_def)
  have v4: "actions (action_history (players (three_handed 1000) ! 0)) = []"
    by (simp add: three_handed_def new_game_def new_player_def new_history_def)
  note r = execute_action_all_in_only_records [OF h1 h2 h3, of 500]
  from r have e1: "fst (execute_action (three_handed 1000) 0 ALL_IN 500)"
    by simp
  from r have e2: "pot (snd (execute_action (three_handed 1000) 0 ALL_IN 500))
      = pot (three_handed 1000)"
    by (elim conjE)
  from r have e3: "map stack (players (snd (execute_action (three_handed 1000) 0 ALL_IN 500)))
      = map stack (players (three_handed 1000))"
    by (elim conjE)
  from r have e4: "map all_in (players (snd (execute_action (three_handed 1000) 0 ALL_IN 500)))
      = map all_in (players (three_handed 1000))"
    by (elim conjE)
  from r have e5:
    "actions (action_history (players (snd (execute_action (three_handed 1000) 0 ALL_IN 500)) ! 0))
      = actions (action_history (players (three_handed 1000) ! 0)) @ [(ALL_IN, 500)]"
    by (elim conjE)
  show ?thesis
    using h1 h2 h3 e1 by (simp only: e2 e3 e4 e5 v1 v2 v3 v4 append_Nil simp_thms)
qed

subsection \<open>A raise for more than the stack\<close>

text \<open>
  C4 at a concrete hand. Seat 0 holds 100 chips, the blinds 10 and 20 are posted, and
  seat 0 raises by 200: the commitment 220 exceeds the stack. The call returns True,
  the stack goes from 100 to 0, the pot from 30 to 130 and the table's current bet
  becomes 100, the player's committed total; the player's all-in flag stays False,
  because \<open>Player.bet\<close> is handed exactly the stack and sets the flag only for an amount
  above it.
\<close>

theorem raise_above_stack_leaves_all_in_unset:
  "map_sum fst
     (\<lambda>g. (fst (execute_action g 0 RAISE 200),
           all_in (players (snd (execute_action g 0 RAISE 200)) ! 0),
           stack (players g ! 0),
           stack (players (snd (execute_action g 0 RAISE 200)) ! 0),
           pot g,
           pot (snd (execute_action g 0 RAISE 200)),
           current_bet (snd (execute_action g 0 RAISE 200))))
     (start_new_hand (three_handed 100) full_deck)
   = Inr (True, False, 100, 0, 30, 130, 100)"
  by code_simp

subsection \<open>The seat scan of \<open>reset_betting_round\<close>\<close>

lemma seat_found_aux:
  "0 < length ps \<Longrightarrow> 0 \<le> pos \<Longrightarrow> pos < int (length ps) \<Longrightarrow>
   \<not> folded (ps ! nat ((pos + int k) mod int (length ps))) \<Longrightarrow>
   \<not> all_in (ps ! nat ((pos + int k) mod int (length ps))) \<Longrightarrow>
   \<exists>q. next_active_seat ps pos = Some q"
proof (induction k arbitrary: pos)
  case 0
  then show ?case by (subst next_active_seat.simps) simp
next
  case (Suc k)
  show ?case
  proof (cases "folded (ps ! nat pos) \<or> all_in (ps ! nat pos)")
    case False
    then show ?thesis by (subst next_active_seat.simps) simp
  next
    case True
    let ?n = "int (length ps)"
    let ?pos' = "(pos + 1) mod ?n"
    have "(?pos' + int k) mod ?n = ((pos + 1) + int k) mod ?n"
      by (rule mod_add_left_eq)
    also have "(pos + 1) + int k = pos + int (Suc k)"
      by simp
    finally have eq: "(?pos' + int k) mod ?n = (pos + int (Suc k)) mod ?n" .
    have "\<exists>q. next_active_seat ps ?pos' = Some q"
      using Suc.prems by (intro Suc.IH) (simp_all add: eq)
    moreover have "next_active_seat ps pos = next_active_seat ps ?pos'"
      using True by (subst next_active_seat.simps) simp
    ultimately show ?thesis by simp
  qed
qed

lemma seat_found:
  assumes "p \<in> set ps" and "\<not> folded p" and "\<not> all_in p"
    and "0 \<le> pos" and "pos < int (length ps)"
  shows "\<exists>q. next_active_seat ps pos = Some q"
proof -
  from assms(1) obtain j where j: "j < length ps" "ps ! j = p"
    by (auto simp: in_set_conv_nth)
  define k where "k = nat ((int j - pos) mod int (length ps))"
  have n: "0 < length ps" using j by auto
  have "(pos + int k) mod int (length ps) = int j mod int (length ps)"
    using n by (simp add: k_def mod_add_right_eq)
  then have "nat ((pos + int k) mod int (length ps)) = j"
    using j by simp
  then show ?thesis
    using seat_found_aux [OF n assms(4,5), of k] j assms(2,3) by simp
qed

lemma seat_result:
  "next_active_seat ps pos = Some q \<Longrightarrow>
   \<not> folded (ps ! nat q) \<and> \<not> all_in (ps ! nat q) \<and>
   (0 < length ps \<longrightarrow> 0 \<le> pos \<longrightarrow> pos < int (length ps) \<longrightarrow> 0 \<le> q \<and> q < int (length ps))"
proof (induction rule: next_active_seat.raw_induct [rotated 1, consumes 1])
  case (1 next_seat ps pos q)
  then show ?case by (auto split: if_splits)
qed

lemma seat_never:
  assumes "ps \<noteq> []" and "\<forall>p \<in> set ps. folded p \<or> all_in p"
    and "0 \<le> pos" and "pos < int (length ps)"
  shows "next_active_seat ps pos = None"
proof (cases "next_active_seat ps pos")
  case None
  then show ?thesis .
next
  case (Some q)
  from seat_result [OF Some] assms
  have q: "\<not> folded (ps ! nat q) \<and> \<not> all_in (ps ! nat q)" "0 \<le> q" "q < int (length ps)"
    by auto
  then have "ps ! nat q \<in> set ps"
    by (simp add: nat_less_iff)
  with assms(2) q(1) show ?thesis by blast
qed

lemma reset_betting_round_returns:
  assumes "p \<in> set (players gs)" and "\<not> folded p" and "\<not> all_in p"
  shows "\<exists>gs'. reset_betting_round gs = Some (Inr gs')"
proof -
  let ?ps = "map (\<lambda>player. player\<lparr>p_current_bet := 0\<rparr>) (players gs)"
  let ?pos = "(dealer_position gs + 1) mod int (length ?ps)"
  have ne: "players gs \<noteq> []" using assms(1) by auto
  have "p\<lparr>p_current_bet := 0\<rparr> \<in> set ?ps"
    using assms(1) by auto
  moreover have "0 \<le> ?pos" "?pos < int (length ?ps)"
    using ne by simp_all
  ultimately obtain q where "next_active_seat ?ps ?pos = Some q"
    using seat_found [of "p\<lparr>p_current_bet := 0\<rparr>" ?ps ?pos] assms(2,3) by auto
  then show ?thesis
    using ne by (simp add: reset_betting_round_def)
qed

lemma deal_street_returns:
  assumes "p \<in> set (players gs)" and "\<not> folded p" and "\<not> all_in p"
  shows "deal_street n r gs \<noteq> None"
proof (cases "deal_one (deck gs)")
  case (Inl x)
  then show ?thesis
    by (cases x) (simp add: deal_street_def)
next
  case (Inr y)
  obtain burn d where y: "y = (burn, d)" by (cases y)
  show ?thesis
  proof (cases "deal d n")
    case (Inl x)
    with Inr y show ?thesis
      by (cases x) (simp add: deal_street_def)
  next
    case inner: (Inr z)
    obtain cs d' where z: "z = (cs, d')" by (cases z)
    let ?gs = "gs\<lparr>deck := d', community_cards := community_cards gs @ cs, current_round := r\<rparr>"
    have "\<exists>gs'. reset_betting_round ?gs = Some (Inr gs')"
      using assms by (intro reset_betting_round_returns [of p]) simp_all
    with Inr y inner z show ?thesis
      by (auto simp: deal_street_def)
  qed
qed

text \<open>
  C10, as the code has it: when at least one player is neither folded nor all-in,
  \<open>reset_betting_round\<close> returns, and so do \<open>deal_flop\<close>, \<open>deal_turn\<close> and \<open>deal_river\<close>
  (with a state or with an exception of the deck). When at least one player is seated
  and every player is folded or all-in, the seat scan of \<open>reset_betting_round\<close> never
  ends.
\<close>

theorem reset_betting_round_termination:
  "((\<exists>p \<in> set (players gs). \<not> folded p \<and> \<not> all_in p) \<longrightarrow>
      (\<exists>gs'. reset_betting_round gs = Some (Inr gs')) \<and>
      deal_flop gs \<noteq> None \<and> deal_turn gs \<noteq> None \<and> deal_river gs \<noteq> None) \<and>
   (players gs \<noteq> [] \<and> (\<forall>p \<in> set (players gs). folded p \<or> all_in p) \<longrightarrow>
      reset_betting_round gs = None)"
proof (intro conjI impI)
  assume "\<exists>p \<in> set (players gs). \<not> folded p \<and> \<not> all_in p"
  then obtain p where p: "p \<in> set (players gs)" "\<not> folded p" "\<not> all_in p"
    by blast
  from p show "\<exists>gs'. reset_betting_round gs = Some (Inr gs')"
    by (rule reset_betting_round_returns)
  from p show "deal_flop gs \<noteq> None"
    unfolding deal_flop_def by (rule deal_street_returns)
  from p show "deal_turn gs \<noteq> None"
    unfolding deal_turn_def by (rule deal_street_returns)
  from p show "deal_river gs \<noteq> None"
    unfolding deal_river_def by (rule deal_street_returns)
next
  assume idle: "players gs \<noteq> [] \<and> (\<forall>p \<in> set (players gs). folded p \<or> all_in p)"
  let ?ps = "map (\<lambda>player. player\<lparr>p_current_bet := 0\<rparr>) (players gs)"
  let ?pos = "(dealer_position gs + 1) mod int (length ?ps)"
  have "next_active_seat ?ps ?pos = None"
    using idle by (intro seat_never) auto
  then show "reset_betting_round gs = None"
    using idle by (simp add: reset_betting_round_def)
qed

theorem reset_betting_round_termination_witness:
  "\<not> folded (players (three_handed 1000) ! 0) \<and>
   \<not> all_in (players (three_handed 1000) ! 0) \<and>
   (\<exists>gs'. reset_betting_round (three_handed 1000) = Some (Inr gs')) \<and>
   deal_flop (three_handed 1000) \<noteq> None \<and>
   length (players idle_table) = 2 \<and>
   folded (players idle_table ! 0) \<and>
   all_in (players idle_table ! 1) \<and>
   reset_betting_round idle_table = None"
proof -
  have a: "\<not> folded (players (three_handed 1000) ! 0)"
      "\<not> all_in (players (three_handed 1000) ! 0)"
    by (simp_all add: three_handed_def new_game_def new_player_def)
  have "players (three_handed 1000) ! 0 \<in> set (players (three_handed 1000))"
    by (simp add: three_handed_def new_game_def)
  with a have h1: "\<exists>p \<in> set (players (three_handed 1000)). \<not> folded p \<and> \<not> all_in p"
    by blast
  have b: "length (players idle_table) = 2" "folded (players idle_table ! 0)"
      "all_in (players idle_table ! 1)"
    by (simp_all add: idle_table_def new_game_def new_player_def)
  have h2: "players idle_table \<noteq> [] \<and> (\<forall>p \<in> set (players idle_table). folded p \<or> all_in p)"
    by (simp add: idle_table_def new_game_def new_player_def)
  from reset_betting_round_termination [of "three_handed 1000"]
    reset_betting_round_termination [of idle_table] h1 h2 a b
  show ?thesis by blast
qed

text \<open>
  C10 as stated fails at a table with nobody seated: every player there is folded or
  all-in, yet \<open>reset_betting_round\<close> ends, with ZeroDivisionError from the remainder
  modulo the number of players, before the seat scan starts.
\<close>

theorem reset_betting_round_empty_table:
  "players empty_table = [] \<and>
   reset_betting_round empty_table = Some (Inl (ZeroDivisionError, empty_table))"
  by (simp add: empty_table_def new_game_def reset_betting_round_def)

subsection \<open>Chips and the current bet over a hand\<close>




















subsection \<open>Splitting the pot at showdown\<close>

lemma sum_extra_chips:
  "0 \<le> r \<Longrightarrow>
   sum_list (map (\<lambda>i. if int i < r then q + 1 else q) [0..<w]) = int w * q + min r (int w)"
proof (induction w)
  case 0
  then show ?case by simp
next
  case (Suc w)
  then show ?case by (auto simp: algebra_simps min_def)
qed

lemma payouts_of_enumerate:
  "map snd (map (\<lambda>(i, winner). (winner, f i)) (enumerate n ws)) = map f [n..<n + length ws] \<and>
   map fst (map (\<lambda>(i, winner). (winner, f i)) (enumerate n ws)) = ws"
proof (induction ws arbitrary: n)
  case Nil
  then show ?case by simp
next
  case (Cons w ws)
  from Cons [of "Suc n"] show ?case by (simp add: upt_rec)
qed

lemma player_hands_of_seats:
  "player_hands_of gs seats = Inr hands \<Longrightarrow> map fst hands = seats"
proof (induction seats arbitrary: hands)
  case Nil
  then show ?case by simp
next
  case (Cons s seats)
  then show ?case by (auto split: sum.splits)
qed

lemma filter_insort_lt:
  assumes "\<not> lt k k"
  shows "filter (\<lambda>y. key y = k) (insort_lt lt key x ys) =
         (if key x = k then x # filter (\<lambda>y. key y = k) ys else filter (\<lambda>y. key y = k) ys)"
proof (induction ys)
  case Nil
  then show ?case by simp
next
  case (Cons y ys)
  then show ?case using assms by auto
qed

lemma filter_sort_lt:
  assumes "\<not> lt k k"
  shows "filter (\<lambda>y. key y = k) (sort_lt lt key xs) = filter (\<lambda>y. key y = k) xs"
proof (induction xs)
  case Nil
  show ?case by (simp add: sort_lt_def)
next
  case (Cons x xs)
  have "sort_lt lt key (x # xs) = insort_lt lt key x (sort_lt lt key xs)"
    by (simp add: sort_lt_def)
  with Cons assms show ?case
    by (simp add: filter_insort_lt)
qed

lemma filter_sort_reverse:
  assumes "\<not> lt k k"
  shows "filter (\<lambda>y. key y = k) (sort_reverse lt key xs) = filter (\<lambda>y. key y = k) xs"
proof -
  have "filter (\<lambda>y. key y = k) (sort_reverse lt key xs)
      = rev (filter (\<lambda>y. key y = k) (sort_lt lt key (rev xs)))"
    by (simp add: sort_reverse_def rev_filter)
  also have "\<dots> = rev (filter (\<lambda>y. key y = k) (rev xs))"
    using assms by (simp add: filter_sort_lt)
  also have "\<dots> = filter (\<lambda>y. key y = k) xs"
    by (simp add: rev_filter)
  finally show ?thesis .
qed

lemma takeWhile_take_filter:
  "takeWhile P xs = take (length (takeWhile P xs)) (filter P xs)"
  by (induction xs) auto

lemma split_payouts:
  fixes p :: int and ws :: "nat list"
  assumes "ws \<noteq> []"
  defines "w \<equiv> int (length ws)"
  defines "results \<equiv> map (\<lambda>(i, winner).
             (winner, if int i < p mod w then p div w + 1 else p div w)) (enumerate 0 ws)"
  shows "map fst results = ws"
    and "map snd results = map (\<lambda>i. p div w + (if int i < p mod w then 1 else 0)) [0..<length ws]"
    and "sum_list (map snd results) = p"
proof -
  let ?f = "\<lambda>i. if int i < p mod w then p div w + 1 else p div w"
  have w: "0 < w" using assms(1) by (simp add: w_def)
  from payouts_of_enumerate [of ?f 0 ws]
  have s: "map snd results = map ?f [0..<length ws]" and f: "map fst results = ws"
    by (simp_all add: results_def)
  show "map fst results = ws" by (rule f)
  show "map snd results = map (\<lambda>i. p div w + (if int i < p mod w then 1 else 0)) [0..<length ws]"
    unfolding s by (rule map_cong) auto
  have r: "0 \<le> p mod w" "p mod w < w"
    using w by simp_all
  have "sum_list (map snd results) = int (length ws) * (p div w) + min (p mod w) (int (length ws))"
    unfolding s using r(1) by (rule sum_extra_chips)
  also have "\<dots> = w * (p div w) + p mod w"
    using r(2) by (simp add: w_def)
  also have "\<dots> = p" by simp
  finally show "sum_list (map snd results) = p" .
qed

lemma winners_in_seating_order:
  fixes hands :: "(nat \<times> HandStrength) list"
  assumes "sorted_wrt (<) (map fst hands)"
  shows "sorted_wrt (<) (map fst (takeWhile (\<lambda>(q, h). hs_eq h best) (sort_reverse hs_lt snd hands)))"
    and "set (map fst (takeWhile (\<lambda>(q, h). hs_eq h best) (sort_reverse hs_lt snd hands)))
          \<subseteq> set (map fst hands)"
proof -
  let ?P = "\<lambda>(q :: nat, h). hs_eq h best"
  let ?s = "sort_reverse hs_lt snd hands"
  have P: "?P = (\<lambda>y. snd y = best)"
    by (auto simp: hs_eq_iff)
  have "filter ?P ?s = filter ?P hands"
    unfolding P using hs_lt_irrefl [of best] by (rule filter_sort_reverse)
  then have tw: "takeWhile ?P ?s = take (length (takeWhile ?P ?s)) (filter ?P hands)"
    using takeWhile_take_filter [of ?P ?s] by simp
  from assms have "sorted_wrt (\<lambda>a b. fst a < fst b) hands"
    by (simp add: sorted_wrt_map)
  then have "sorted_wrt (\<lambda>a b. fst a < fst b) (take (length (takeWhile ?P ?s)) (filter ?P hands))"
    by (intro sorted_wrt_take sorted_wrt_filter)
  then show "sorted_wrt (<) (map fst (takeWhile ?P ?s))"
    unfolding tw [symmetric] by (simp add: sorted_wrt_map)
  have "set (takeWhile ?P ?s) \<subseteq> set hands"
    by (subst tw) (meson filter_is_subset set_take_subset subset_trans)
  then show "set (map fst (takeWhile ?P ?s)) \<subseteq> set (map fst hands)"
    by auto
qed

lemma evaluate_hand_returns:
  assumes "5 \<le> length cs"
  shows "\<exists>h. evaluate_hand cs = Inr h"
proof -
  have "\<forall>x \<in> set (combinations cs 5). length x = 5"
    by (simp add: combinations_length)
  moreover have "combinations cs 5 \<noteq> []"
    using assms by (rule combinations_nonempty)
  ultimately obtain best where "best_of (combinations cs 5) None = Inr (Some best)"
    using best_of_None by blast
  then show ?thesis
    using assms by (simp add: evaluate_hand_def)
qed

lemma player_hands_of_returns:
  assumes "\<forall>i \<in> set seats. 5 \<le> length (hole_cards (players gs ! i) @ community_cards gs)"
  shows "\<exists>hands. player_hands_of gs seats = Inr hands \<and> length hands = length seats"
  using assms
proof (induction seats)
  case Nil
  then show ?case by simp
next
  case (Cons s seats)
  then obtain hands where "player_hands_of gs seats = Inr hands" "length hands = length seats"
    by auto
  moreover from Cons.prems obtain h
    where "evaluate_hand (hole_cards (players gs ! s) @ community_cards gs) = Inr h"
    using evaluate_hand_returns [of "hole_cards (players gs ! s) @ community_cards gs"] by auto
  ultimately show ?case by simp
qed

lemma length_insort_lt: "length (insort_lt lt key x ys) = Suc (length ys)"
  by (induction ys) simp_all

lemma length_sort_reverse: "length (sort_reverse lt key xs) = length xs"
proof -
  have "length (sort_lt lt key ys) = length ys" for ys
    by (induction ys) (simp_all add: sort_lt_def length_insort_lt)
  then show ?thesis by (simp add: sort_reverse_def)
qed

lemma determine_winners_returns:
  assumes "get_active_players gs \<noteq> []"
    and "\<forall>i \<in> set (get_active_players gs).
           5 \<le> length (hole_cards (players gs ! i) @ community_cards gs)"
  shows "\<exists>results. determine_winners gs = Inr results"
proof (cases "length (get_active_players gs) = 1")
  case True
  then show ?thesis by (simp add: determine_winners_def)
next
  case False
  from player_hands_of_returns [OF assms(2)] obtain hands
    where hands: "player_hands_of gs (get_active_players gs) = Inr hands"
      "length hands = length (get_active_players gs)"
    by blast
  let ?s = "sort_reverse hs_lt snd hands"
  have "length ?s \<noteq> 0"
    using hands(2) assms(1) by (simp add: length_sort_reverse)
  then obtain p best others where s: "?s = (p, best) # others"
    by (cases ?s) auto
  define ws where "ws = map fst (takeWhile (\<lambda>(q, h). hs_eq h best) ((p, best) # others))"
  have ne: "ws \<noteq> []"
    by (simp add: ws_def hs_eq_iff)
  have "determine_winners gs =
          (if length ws = 0 then Inl ZeroDivisionError
           else Inr (map (\<lambda>(i, winner).
             (winner, if int i < pot gs mod int (length ws) then pot gs div int (length ws) + 1
                      else pot gs div int (length ws))) (enumerate 0 ws)))"
    unfolding determine_winners_def Let_def ws_def
    by (simp only: False if_False hands sum.case s list.case prod.case)
  with ne show ?thesis by simp
qed

lemma evaluate_hand_well_formed:
  assumes "evaluate_hand cs = Inr h"
  shows "well_formed h"
proof -
  from assms have len: "5 \<le> length cs"
    by (auto simp: evaluate_hand_def split: if_splits)
  have five: "\<forall>x \<in> set (combinations cs 5). length x = 5"
    by (simp add: combinations_length)
  have "combinations cs 5 \<noteq> []"
    using len by (rule combinations_nonempty)
  from best_of_None [OF five this] obtain best x
    where best: "best_of (combinations cs 5) None = Inr (Some best)"
      and x: "x \<in> set (combinations cs 5)" "evaluate_five_cards x = Inr best"
    by blast
  from best assms len have "h = best"
    by (simp add: evaluate_hand_def)
  moreover from evaluate_five_cards_well_formed [of x] x five have "well_formed best"
    by auto
  ultimately show ?thesis by simp
qed

lemma player_hands_of_strengths:
  "player_hands_of gs seats = Inr hands \<Longrightarrow>
   (\<forall>y \<in> set hands.
      evaluate_hand (hole_cards (players gs ! fst y) @ community_cards gs) = Inr (snd y)) \<and>
   map fst (filter (\<lambda>y. snd y = b) hands) =
     filter (\<lambda>i. evaluate_hand (hole_cards (players gs ! i) @ community_cards gs) = Inr b) seats"
proof (induction seats arbitrary: hands)
  case Nil
  then show ?case by simp
next
  case (Cons s seats)
  from Cons.prems obtain h rest
    where h: "evaluate_hand (hole_cards (players gs ! s) @ community_cards gs) = Inr h"
      and rest: "player_hands_of gs seats = Inr rest" and hands: "hands = (s, h) # rest"
    by (auto split: sum.splits)
  from Cons.IH [OF rest] h show ?case
    by (auto simp: hands)
qed

lemma set_insort_lt: "set (insort_lt lt key x ys) = insert x (set ys)"
  by (induction ys) auto

lemma set_sort_lt: "set (sort_lt lt key xs) = set xs"
proof (induction xs)
  case Nil
  show ?case by (simp add: sort_lt_def)
next
  case (Cons x xs)
  have "sort_lt lt key (x # xs) = insort_lt lt key x (sort_lt lt key xs)"
    by (simp add: sort_lt_def)
  with Cons show ?case by (simp add: set_insort_lt)
qed

lemma set_sort_reverse: "set (sort_reverse lt key xs) = set xs"
  by (simp add: sort_reverse_def set_sort_lt)

lemma insort_lt_sorted:
  fixes x :: "'a \<times> HandStrength"
  assumes "well_formed (snd x)" and "\<forall>y \<in> set ys. well_formed (snd y)"
    and "sorted_wrt (\<lambda>a b. \<not> hs_lt (snd b) (snd a)) ys"
  shows "sorted_wrt (\<lambda>a b. \<not> hs_lt (snd b) (snd a)) (insort_lt hs_lt snd x ys)"
  using assms(2,3)
proof (induction ys)
  case Nil
  then show ?case by simp
next
  case (Cons y ys)
  from Cons.prems have wy: "well_formed (snd y)" and wys: "\<forall>z \<in> set ys. well_formed (snd z)"
    and yz: "\<forall>z \<in> set ys. \<not> hs_lt (snd z) (snd y)"
    and sys: "sorted_wrt (\<lambda>a b. \<not> hs_lt (snd b) (snd a)) ys"
    by simp_all
  show ?case
  proof (cases "hs_lt (snd y) (snd x)")
    case True
    then have "\<not> hs_lt (snd x) (snd y)" by (rule hs_lt_asym)
    with True yz Cons.IH [OF wys sys] show ?thesis
      by (simp add: set_insort_lt)
  next
    case False
    have "\<not> hs_lt (snd z) (snd x)" if z: "z \<in> set ys" for z
    proof
      assume zx: "hs_lt (snd z) (snd x)"
      from hs_lt_total [OF assms(1) wy] False have "snd x = snd y \<or> hs_lt (snd x) (snd y)"
        by blast
      then have "hs_lt (snd z) (snd y)"
      proof
        assume "snd x = snd y"
        with zx show ?thesis by simp
      next
        assume "hs_lt (snd x) (snd y)"
        with zx wys z assms(1) wy show ?thesis
          by (blast intro: hs_lt_trans)
      qed
      with yz z show False by blast
    qed
    with False Cons.prems show ?thesis by simp
  qed
qed

lemma sort_lt_sorted:
  fixes xs :: "('a \<times> HandStrength) list"
  assumes "\<forall>y \<in> set xs. well_formed (snd y)"
  shows "sorted_wrt (\<lambda>a b. \<not> hs_lt (snd b) (snd a)) (sort_lt hs_lt snd xs)"
  using assms
proof (induction xs)
  case Nil
  show ?case by (simp add: sort_lt_def)
next
  case (Cons x xs)
  have eq: "sort_lt hs_lt snd (x # xs) = insort_lt hs_lt snd x (sort_lt hs_lt snd xs)"
    by (simp add: sort_lt_def)
  from Cons.prems have "well_formed (snd x)"
    and "\<forall>y \<in> set (sort_lt hs_lt snd xs). well_formed (snd y)"
    by (simp_all add: set_sort_lt)
  moreover from Cons have "sorted_wrt (\<lambda>a b. \<not> hs_lt (snd b) (snd a)) (sort_lt hs_lt snd xs)"
    by simp
  ultimately show ?case
    unfolding eq by (rule insort_lt_sorted)
qed

lemma sort_reverse_sorted:
  fixes xs :: "('a \<times> HandStrength) list"
  assumes "\<forall>y \<in> set xs. well_formed (snd y)"
  shows "sorted_wrt (\<lambda>a b. \<not> hs_lt (snd a) (snd b)) (sort_reverse hs_lt snd xs)"
proof -
  from assms have "sorted_wrt (\<lambda>a b. \<not> hs_lt (snd b) (snd a)) (sort_lt hs_lt snd (rev xs))"
    by (intro sort_lt_sorted) simp
  then show ?thesis
    by (simp add: sort_reverse_def sorted_wrt_rev)
qed

lemma takeWhile_best:
  fixes xs :: "('a \<times> HandStrength) list"
  assumes "sorted_wrt (\<lambda>a b. \<not> hs_lt (snd a) (snd b)) xs"
    and "\<forall>y \<in> set xs. well_formed (snd y)" and "well_formed best"
    and "\<forall>y \<in> set xs. \<not> hs_lt best (snd y)"
  shows "takeWhile (\<lambda>y. snd y = best) xs = filter (\<lambda>y. snd y = best) xs"
  using assms(1,2,4)
proof (induction xs)
  case Nil
  then show ?case by simp
next
  case (Cons x xs)
  show ?case
  proof (cases "snd x = best")
    case True
    with Cons show ?thesis by simp
  next
    case False
    from Cons.prems have "well_formed (snd x)" "\<not> hs_lt best (snd x)"
      by simp_all
    with hs_lt_total [OF this(1) assms(3)] False have lt: "hs_lt (snd x) best"
      by blast
    have "snd z \<noteq> best" if "z \<in> set xs" for z
      using Cons.prems(1) that lt by auto
    then have "filter (\<lambda>y. snd y = best) xs = []"
      by (simp add: filter_empty_conv)
    with False show ?thesis by simp
  qed
qed

lemma tied_for_best:
  assumes hands: "player_hands_of gs (get_active_players gs) = Inr hands"
    and s: "sort_reverse hs_lt snd hands = (p, best) # others"
  shows "map fst (takeWhile (\<lambda>(q, h). hs_eq h best) ((p, best) # others)) =
           filter (\<lambda>i. evaluate_hand (hole_cards (players gs ! i) @ community_cards gs) = Inr best)
             (get_active_players gs)"
    and "\<forall>i \<in> set (get_active_players gs).
           \<exists>h. evaluate_hand (hole_cards (players gs ! i) @ community_cards gs) = Inr h \<and>
               (hs_lt h best \<or> hs_eq h best)"
proof -
  let ?s = "sort_reverse hs_lt snd hands"
  note st = player_hands_of_strengths [OF hands, of best]
  have wf: "\<forall>y \<in> set hands. well_formed (snd y)"
    using st evaluate_hand_well_formed by blast
  have set_s: "set ?s = set hands"
    by (rule set_sort_reverse)
  have wfs: "\<forall>y \<in> set ?s. well_formed (snd y)"
    using wf set_s by simp
  have "(p, best) \<in> set ?s"
    by (simp add: s)
  with wfs have wb: "well_formed best"
    by fastforce
  have sorted: "sorted_wrt (\<lambda>a b. \<not> hs_lt (snd a) (snd b)) ?s"
    using wf by (rule sort_reverse_sorted)
  have top: "\<forall>y \<in> set ?s. \<not> hs_lt best (snd y)"
    using sorted hs_lt_irrefl [of best] by (simp add: s)
  have P: "(\<lambda>(q :: nat, h). hs_eq h best) = (\<lambda>y. snd y = best)"
    by (auto simp: hs_eq_iff)
  have "takeWhile (\<lambda>y. snd y = best) ?s = filter (\<lambda>y. snd y = best) ?s"
    using sorted wfs wb top by (rule takeWhile_best)
  also have "\<dots> = filter (\<lambda>y. snd y = best) hands"
    using hs_lt_irrefl [of best] by (rule filter_sort_reverse)
  finally have "map fst (takeWhile (\<lambda>y. snd y = best) ?s) =
      filter (\<lambda>i. evaluate_hand (hole_cards (players gs ! i) @ community_cards gs) = Inr best)
        (get_active_players gs)"
    using st by simp
  then show "map fst (takeWhile (\<lambda>(q, h). hs_eq h best) ((p, best) # others)) =
           filter (\<lambda>i. evaluate_hand (hole_cards (players gs ! i) @ community_cards gs) = Inr best)
             (get_active_players gs)"
    by (simp only: P s)
  have seats: "map fst hands = get_active_players gs"
    using hands by (rule player_hands_of_seats)
  show "\<forall>i \<in> set (get_active_players gs).
           \<exists>h. evaluate_hand (hole_cards (players gs ! i) @ community_cards gs) = Inr h \<and>
               (hs_lt h best \<or> hs_eq h best)"
  proof
    fix i assume "i \<in> set (get_active_players gs)"
    then have "i \<in> fst ` set hands"
      using seats by (metis set_map)
    then obtain y where y: "y \<in> set hands" "fst y = i"
      by auto
    from st y have e: "evaluate_hand (hole_cards (players gs ! i) @ community_cards gs) = Inr (snd y)"
      by auto
    from y(1) wf have wy: "well_formed (snd y)" by simp
    from y(1) top set_s have "\<not> hs_lt best (snd y)" by simp
    with hs_lt_total [OF wy wb] have "hs_lt (snd y) best \<or> hs_eq (snd y) best"
      by (auto simp: hs_eq_iff)
    with e show "\<exists>h. evaluate_hand (hole_cards (players gs ! i) @ community_cards gs) = Inr h \<and>
               (hs_lt h best \<or> hs_eq h best)"
      by blast
  qed
qed

text \<open>
  C5: whenever \<open>determine_winners\<close> returns, with a pot \<open>P\<close> and \<open>W\<close> winners, there is
  at least one winner, the winner at position \<open>i\<close> is paid \<open>P // W\<close> plus one chip if
  \<open>i < P mod W\<close>, the payouts are integers that sum to \<open>P\<close>, and the winners are listed in
  seating order, so the extra chips go to the first \<open>P mod W\<close> winners in seating order.
  The winners are the one player who has not folded, when there is only one; otherwise
  they are exactly the players who have not folded and whose seven-card strength is the
  best one, a strength that no such player's strength exceeds. \<open>determine_winners\<close> does
  return when some player has not folded and every such player has at least five cards
  with the board. In particular a pot of 100 split among three tied winners pays 34, 33
  and 33.
\<close>

theorem determine_winners_splits_pot:
  "(determine_winners gs = Inr results \<longrightarrow>
      results \<noteq> [] \<and>
      map snd results =
        map (\<lambda>i. pot gs div int (length results)
                    + (if int i < pot gs mod int (length results) then 1 else 0))
          [0..<length results] \<and>
      sum_list (map snd results) = pot gs \<and>
      sorted_wrt (<) (map fst results) \<and>
      set (map fst results) \<subseteq> set (get_active_players gs) \<and>
      (length (get_active_players gs) = 1 \<longrightarrow> map fst results = get_active_players gs) \<and>
      (length (get_active_players gs) \<noteq> 1 \<longrightarrow>
         (\<exists>best.
            map fst results =
              filter (\<lambda>i. evaluate_hand (hole_cards (players gs ! i) @ community_cards gs)
                            = Inr best)
                (get_active_players gs) \<and>
            (\<forall>i \<in> set (get_active_players gs).
               \<exists>h. evaluate_hand (hole_cards (players gs ! i) @ community_cards gs) = Inr h \<and>
                   (hs_lt h best \<or> hs_eq h best))))) \<and>
   (get_active_players gs \<noteq> [] \<and>
    list_all (\<lambda>i. 5 \<le> length (hole_cards (players gs ! i) @ community_cards gs))
      (get_active_players gs) \<longrightarrow>
      (\<exists>res. determine_winners gs = Inr res)) \<and>
   determine_winners showdown_table = Inr [(0, 34), (3, 33), (4, 33)]"
proof -
  have concrete: "determine_winners showdown_table = Inr [(0, 34), (3, 33), (4, 33)]"
    by code_simp
  have returns: "\<exists>res. determine_winners gs = Inr res"
    if "get_active_players gs \<noteq> [] \<and>
      list_all (\<lambda>i. 5 \<le> length (hole_cards (players gs ! i) @ community_cards gs))
        (get_active_players gs)"
    using that by (intro determine_winners_returns) (simp_all add: list_all_iff)
  let ?active = "get_active_players gs"
  let ?eval = "\<lambda>i. evaluate_hand (hole_cards (players gs ! i) @ community_cards gs)"
  have general: "results \<noteq> [] \<and>
      map snd results =
        map (\<lambda>i. pot gs div int (length results)
                    + (if int i < pot gs mod int (length results) then 1 else 0))
          [0..<length results] \<and>
      sum_list (map snd results) = pot gs \<and>
      sorted_wrt (<) (map fst results) \<and>
      set (map fst results) \<subseteq> set ?active \<and>
      (length ?active = 1 \<longrightarrow> map fst results = ?active) \<and>
      (length ?active \<noteq> 1 \<longrightarrow>
         (\<exists>best. map fst results = filter (\<lambda>i. ?eval i = Inr best) ?active \<and>
            (\<forall>i \<in> set ?active. \<exists>h. ?eval i = Inr h \<and> (hs_lt h best \<or> hs_eq h best))))"
    if dw: "determine_winners gs = Inr results"
  proof (cases "length ?active = 1")
    case True
    with dw have r: "results = [(?active ! 0, pot gs)]"
      by (simp add: determine_winners_def)
    from True obtain a where a: "?active = [a]"
      by (cases ?active) auto
    with r True show ?thesis by simp
  next
    case False
    with dw obtain hands where hands: "player_hands_of gs ?active = Inr hands"
      by (auto simp: determine_winners_def split: sum.splits)
    let ?s = "sort_reverse hs_lt snd hands"
    from dw False hands obtain p best others where s: "?s = (p, best) # others"
      by (auto simp: determine_winners_def split: list.splits)
    define ws where "ws = map fst (takeWhile (\<lambda>(q, h). hs_eq h best) ((p, best) # others))"
    have ne: "ws \<noteq> []"
      by (simp add: ws_def hs_eq_iff)
    have ws_sorted: "ws = map fst (takeWhile (\<lambda>(q, h). hs_eq h best) ?s)"
      by (simp only: ws_def s)
    have "determine_winners gs =
          (if length ws = 0 then Inl ZeroDivisionError
           else Inr (map (\<lambda>(i, winner).
             (winner, if int i < pot gs mod int (length ws) then pot gs div int (length ws) + 1
                      else pot gs div int (length ws))) (enumerate 0 ws)))"
      unfolding determine_winners_def Let_def ws_def
      by (simp only: False if_False hands sum.case s list.case prod.case)
    with dw ne have r: "results = map (\<lambda>(i, winner).
             (winner, if int i < pot gs mod int (length ws) then pot gs div int (length ws) + 1
                      else pot gs div int (length ws))) (enumerate 0 ws)"
      by simp
    note sp = split_payouts [OF ne, of "pot gs", folded r]
    have len: "length results = length ws"
      using sp(1) by (metis length_map)
    have seats: "map fst hands = ?active"
      using hands by (rule player_hands_of_seats)
    have "sorted_wrt (<) ?active"
      by (simp add: get_active_players_def sorted_wrt_filter)
    then have so: "sorted_wrt (<) (map fst hands)"
      by (simp add: seats)
    note ord = winners_in_seating_order [OF so, of best, folded ws_sorted]
    note tie = tied_for_best [OF hands s, folded ws_def]
    from ne sp(1) have 1: "results \<noteq> []" by auto
    from sp(2) have 2: "map snd results =
        map (\<lambda>i. pot gs div int (length results)
                    + (if int i < pot gs mod int (length results) then 1 else 0))
          [0..<length results]"
      by (simp only: len)
    note 3 = sp(3)
    from ord(1) have 4: "sorted_wrt (<) (map fst results)"
      by (simp only: sp(1))
    from ord(2) have 5: "set (map fst results) \<subseteq> set ?active"
      by (simp only: sp(1) seats)
    from tie(1) have 6: "map fst results = filter (\<lambda>i. ?eval i = Inr best) ?active"
      by (simp only: sp(1))
    from 6 tie(2) have 7: "\<exists>best. map fst results = filter (\<lambda>i. ?eval i = Inr best) ?active \<and>
            (\<forall>i \<in> set ?active. \<exists>h. ?eval i = Inr h \<and> (hs_lt h best \<or> hs_eq h best))"
      by blast
    from 1 2 3 4 5 7 False show ?thesis by blast
  qed
  from general returns concrete show ?thesis by blast
qed

theorem determine_winners_splits_pot_witness:
  "get_active_players showdown_table = [0, 2, 3, 4] \<and>
   length (get_active_players showdown_table) \<noteq> 1 \<and>
   list_all (\<lambda>i. 5 \<le> length (hole_cards (players showdown_table ! i)
                               @ community_cards showdown_table))
     (get_active_players showdown_table) \<and>
   (\<exists>res. determine_winners showdown_table = Inr res) \<and>
   determine_winners showdown_table = Inr [(0, 34), (3, 33), (4, 33)] \<and>
   pot showdown_table = 100 \<and>
   sum_list (map snd [(0 :: nat, 34 :: int), (3, 33), (4, 33)]) = pot showdown_table \<and>
   sorted_wrt (<) (map fst [(0 :: nat, 34 :: int), (3, 33), (4, 33)]) \<and>
   map snd [(0 :: nat, 34 :: int), (3, 33), (4, 33)] =
     map (\<lambda>i. pot showdown_table div int (length [(0 :: nat, 34 :: int), (3, 33), (4, 33)])
               + (if int i < pot showdown_table
                      mod int (length [(0 :: nat, 34 :: int), (3, 33), (4, 33)]) then 1 else 0))
       [0..<length [(0 :: nat, 34 :: int), (3, 33), (4, 33)]] \<and>
   (\<exists>best.
      map fst [(0 :: nat, 34 :: int), (3, 33), (4, 33)] =
        filter (\<lambda>i. evaluate_hand (hole_cards (players showdown_table ! i)
                                      @ community_cards showdown_table) = Inr best)
          (get_active_players showdown_table) \<and>
      evaluate_hand (hole_cards (players showdown_table ! 0) @ community_cards showdown_table)
        = Inr best \<and>
      evaluate_hand (hole_cards (players showdown_table ! 2) @ community_cards showdown_table)
        \<noteq> Inr best)"
proof -
  let ?T = showdown_table
  let ?r = "[(0 :: nat, 34 :: int), (3, 33), (4, 33)]"
  let ?eval = "\<lambda>i. evaluate_hand (hole_cards (players ?T ! i) @ community_cards ?T)"
  note t = determine_winners_splits_pot [of ?T ?r]
  from t have dw: "determine_winners ?T = Inr ?r"
    by blast
  have p: "pot ?T = 100"
    by (simp add: showdown_table_def new_game_def)
  have a: "get_active_players ?T = [0, 2, 3, 4]"
    by code_simp
  then have n1: "length (get_active_players ?T) \<noteq> 1"
    by simp
  have c: "list_all (\<lambda>i. 5 \<le> length (hole_cards (players ?T ! i) @ community_cards ?T))
     (get_active_players ?T)"
    by code_simp
  from a have "get_active_players ?T \<noteq> []"
    by simp
  with t c have ex: "\<exists>res. determine_winners ?T = Inr res"
    by blast
  from t dw n1 obtain best
    where best: "map fst ?r = filter (\<lambda>i. ?eval i = Inr best) (get_active_players ?T)"
    by blast
  have m0: "(0 :: nat) \<in> set (filter (\<lambda>i. ?eval i = Inr best) (get_active_players ?T))"
    and m2: "(2 :: nat) \<notin> set (filter (\<lambda>i. ?eval i = Inr best) (get_active_players ?T))"
    by (simp_all add: best [symmetric])
  from m0 have e0: "?eval 0 = Inr best"
    by simp
  have "(2 :: nat) \<in> set (get_active_players ?T)"
    by (simp add: a)
  with m2 have e2: "?eval 2 \<noteq> Inr best"
    by simp
  note e0 e2
  with best have tie: "\<exists>best. map fst ?r = filter (\<lambda>i. ?eval i = Inr best) (get_active_players ?T) \<and>
      ?eval 0 = Inr best \<and> ?eval 2 \<noteq> Inr best"
    by blast
  from t dw p a n1 c ex tie show ?thesis
    by blast
qed

end
